theory Spec2Isabelle
  imports Main "HOL-Library.Monad_Syntax"
begin

section \<open>The game state of \<open>tic_tac_toe.py\<close>\<close>

text \<open>
  A cell of the grid holds one of the strings \<open>" "\<close>, \<open>"X"\<close> and \<open>"O"\<close>. The two player
  symbols form the type \<open>symbol\<close> (\<open>PX\<close> for \<open>"X"\<close>, \<open>PO\<close> for \<open>"O"\<close>); a cell is a
  \<open>symbol option\<close>, with \<open>None\<close> for the blank string. The board is the list of rows of
  the class, \<open>self.board\<close>.
\<close>

datatype symbol = PX | PO

type_synonym cell = "symbol option"

type_synonym board = "cell list list"

text \<open>
  The fields of class \<open>TicTacToe\<close> that the game logic reads or writes. The lock, the flag
  \<open>play_with_npc\<close> and the difficulty string only steer the terminal loop and are left out.
  Methods that write to \<open>self.board\<close> take the state and return the state after the call;
  row and column indices of the loops are natural numbers, the arguments of \<open>make_move\<close>,
  which come from outside, are integers.
\<close>

record game =
  board :: board
  current_player :: symbol
  player_symbol :: symbol
  npc_symbol :: symbol

text \<open>The exceptions the game logic can raise: \<open>InvalidMoveError\<close> with its message, and the
  \<open>IndexError\<close> of \<open>random.choice\<close> on an empty sequence.\<close>

datatype error = InvalidMoveError string | IndexError

text \<open>\<open>sys.maxsize\<close> of a 64-bit CPython.\<close>

definition maxsize :: int where
  "maxsize = 9223372036854775807"

text \<open>\<open>__init__\<close>: an empty grid, X to move, the human is X and the computer is O.\<close>

definition new_game :: game where
  "new_game = \<lparr> board = replicate 3 (replicate 3 None), current_player = PX,
                player_symbol = PX, npc_symbol = PO \<rparr>"

text \<open>The shape every board of the program has: three rows of three cells.\<close>

definition wf_board :: "board \<Rightarrow> bool" where
  "wf_board b \<longleftrightarrow> length b = 3 \<and> list_all (\<lambda>row. length row = 3) b"

text \<open>The assignment \<open>self.board[row][col] = v\<close>.\<close>

definition set_cell :: "board \<Rightarrow> nat \<Rightarrow> nat \<Rightarrow> cell \<Rightarrow> board" where
  "set_cell b row col v = b[row := (b ! row)[col := v]]"

definition put :: "game \<Rightarrow> nat \<Rightarrow> nat \<Rightarrow> cell \<Rightarrow> game" where
  "put g row col v = g\<lparr>board := set_cell (board g) row col v\<rparr>"

subsection \<open>\<open>make_move\<close> and \<open>switch_player\<close>\<close>

text \<open>
  \<open>make_move\<close> raises before it writes, or writes one cell and returns \<open>True\<close>. The model
  returns the raised error or the returned value together with the state after the call.
\<close>

definition make_move :: "game \<Rightarrow> int \<Rightarrow> int \<Rightarrow> (error + bool) \<times> game" where
  "make_move g row col =
     (if \<not> (0 \<le> row \<and> row < 3 \<and> 0 \<le> col \<and> col < 3)
      then (Inl (InvalidMoveError ''Row or column is out of bounds''), g)
      else if board g ! nat row ! nat col \<noteq> None
      then (Inl (InvalidMoveError ''Spot is already taken''), g)
      else (Inr True, put g (nat row) (nat col) (Some (current_player g))))"

definition switch_player :: "game \<Rightarrow> game" where
  "switch_player g =
     g\<lparr>current_player :=
         (if current_player g = player_symbol g then npc_symbol g else player_symbol g)\<rparr>"

subsection \<open>\<open>check_winner\<close> and \<open>is_full\<close>\<close>

text \<open>The list \<open>lines\<close> of \<open>check_winner\<close>: the rows, the columns, the two diagonals.\<close>

definition lines :: "board \<Rightarrow> cell list list" where
  "lines b =
     map (\<lambda>i. b ! i) [0..<3] @
     map (\<lambda>j. map (\<lambda>i. b ! i ! j) [0..<3]) [0..<3] @
     [map (\<lambda>i. b ! i ! i) [0..<3], map (\<lambda>i. b ! i ! (2 - i)) [0..<3]]"

text \<open>The loop \<open>for line in lines\<close>, returning at the first line that is one symbol thrice.\<close>

fun scan_lines :: "cell list list \<Rightarrow> cell" where
  "scan_lines [] = None"
| "scan_lines (line # rest) =
     (if count_list line (line ! 0) = 3 \<and> line ! 0 \<noteq> None then line ! 0
      else scan_lines rest)"

definition check_winner :: "game \<Rightarrow> symbol option" where
  "check_winner g = scan_lines (lines (board g))"

definition is_full :: "game \<Rightarrow> bool" where
  "is_full g = list_all (\<lambda>cell. cell \<noteq> None) (concat (board g))"

subsection \<open>The strategies \<open>random_move\<close> and \<open>medium_move\<close>\<close>

text \<open>The cells in the order of \<open>for row in range(3): for col in range(3)\<close>.\<close>

definition all_cells :: "(nat \<times> nat) list" where
  "all_cells = concat (map (\<lambda>row. map (\<lambda>col. (row, col)) [0..<3]) [0..<3])"

text \<open>
  \<open>random.choice(seq)\<close> raises \<open>IndexError\<close> on an empty sequence and otherwise returns
  \<open>seq[i]\<close> for a random index \<open>i\<close> below \<open>len(seq)\<close>. The random draw is the
  argument \<open>rnd\<close>.
\<close>

definition random_choice :: "nat \<Rightarrow> 'a list \<Rightarrow> error + 'a" where
  "random_choice rnd xs = (if xs = [] then Inl IndexError else Inr (xs ! (rnd mod length xs)))"

definition available_moves :: "game \<Rightarrow> (nat \<times> nat) list" where
  "available_moves g = filter (\<lambda>(r, c). board g ! r ! c = None) all_cells"

definition random_move :: "nat \<Rightarrow> game \<Rightarrow> error + nat \<times> nat" where
  "random_move rnd g = random_choice rnd (available_moves g)"

text \<open>
  \<open>find_best_move\<close> writes \<open>symbol\<close> into each empty cell in turn, asks \<open>check_winner\<close>,
  and blanks the cell again before it returns or moves on. The state is threaded through
  the loop and returned with the result.
\<close>

fun find_best_move_loop ::
  "(nat \<times> nat) list \<Rightarrow> symbol \<Rightarrow> game \<Rightarrow> (nat \<times> nat) option \<times> game" where
  "find_best_move_loop [] symbol g = (None, g)"
| "find_best_move_loop ((row, col) # rest) symbol g =
     (if board g ! row ! col = None then
        let g1 = put g row col (Some symbol) in
        if check_winner g1 = Some symbol then (Some (row, col), put g1 row col None)
        else find_best_move_loop rest symbol (put g1 row col None)
      else find_best_move_loop rest symbol g)"

definition find_best_move :: "game \<Rightarrow> symbol \<Rightarrow> (nat \<times> nat) option \<times> game" where
  "find_best_move g symbol = find_best_move_loop all_cells symbol g"

definition corners :: "(nat \<times> nat) list" where
  "corners = [(0, 0), (0, 2), (2, 0), (2, 2)]"

definition sides :: "(nat \<times> nat) list" where
  "sides = [(0, 1), (1, 0), (1, 2), (2, 1)]"

definition medium_move :: "nat \<Rightarrow> game \<Rightarrow> (error + nat \<times> nat) \<times> game" where
  "medium_move rnd g =
     (case find_best_move g (npc_symbol g) of
        (Some move, g1) \<Rightarrow> (Inr move, g1)
      | (None, g1) \<Rightarrow>
          (case find_best_move g1 (player_symbol g1) of
             (Some move, g2) \<Rightarrow> (Inr move, g2)
           | (None, g2) \<Rightarrow>
               if board g2 ! 1 ! 1 = None then (Inr (1, 1), g2)
               else
                 let available_corners = filter (\<lambda>corner. board g2 ! fst corner ! snd corner = None) corners in
                 if available_corners \<noteq> [] then (random_choice rnd available_corners, g2)
                 else
                   let available_sides = filter (\<lambda>side. board g2 ! fst side ! snd side = None) sides in
                   if available_sides \<noteq> [] then (random_choice rnd available_sides, g2)
                   else (random_move rnd g2, g2)))"

subsection \<open>The strategy \<open>hard_move\<close>: \<open>minimax\<close> with alpha-beta cutoffs\<close>

text \<open>
  \<open>minimax\<close> writes into \<open>self.board\<close>, calls itself and blanks the cell again, so the model
  returns the score together with the state after the call. The inner loop over the columns
  of one row ends at a \<open>break\<close>; the outer loop over the rows then goes on with the next
  row. The recursive call is the parameter \<open>rec\<close> of the two loops.
\<close>

type_synonym search = "game \<Rightarrow> int \<Rightarrow> bool \<Rightarrow> int \<Rightarrow> int \<Rightarrow> (int \<times> game) option"

fun max_cols ::
  "search \<Rightarrow> int \<Rightarrow> int \<Rightarrow> nat \<Rightarrow> nat list \<Rightarrow> int \<times> int \<times> game \<Rightarrow> (int \<times> int \<times> game) option" where
  "max_cols rec depth beta row [] st = Some st"
| "max_cols rec depth beta row (col # cols) (max_eval, alpha, g) =
     (if board g ! row ! col = None then
        do {
          (eval, g1) \<leftarrow> rec (put g row col (Some (npc_symbol g))) (depth + 1) False alpha beta;
          let g2 = put g1 row col None;
          let max_eval = max max_eval eval;
          let alpha = max alpha eval;
          if beta \<le> alpha then Some (max_eval, alpha, g2)
          else max_cols rec depth beta row cols (max_eval, alpha, g2)
        }
      else max_cols rec depth beta row cols (max_eval, alpha, g))"

fun max_rows ::
  "search \<Rightarrow> int \<Rightarrow> int \<Rightarrow> nat list \<Rightarrow> int \<times> int \<times> game \<Rightarrow> (int \<times> int \<times> game) option" where
  "max_rows rec depth beta [] st = Some st"
| "max_rows rec depth beta (row # rows) st =
     do {
       st1 \<leftarrow> max_cols rec depth beta row [0..<3] st;
       max_rows rec depth beta rows st1
     }"

fun min_cols ::
  "search \<Rightarrow> int \<Rightarrow> int \<Rightarrow> nat \<Rightarrow> nat list \<Rightarrow> int \<times> int \<times> game \<Rightarrow> (int \<times> int \<times> game) option" where
  "min_cols rec depth alpha row [] st = Some st"
| "min_cols rec depth alpha row (col # cols) (min_eval, beta, g) =
     (if board g ! row ! col = None then
        do {
          (eval, g1) \<leftarrow> rec (put g row col (Some (player_symbol g))) (depth + 1) True alpha beta;
          let g2 = put g1 row col None;
          let min_eval = min min_eval eval;
          let beta = min beta eval;
          if beta \<le> alpha then Some (min_eval, beta, g2)
          else min_cols rec depth alpha row cols (min_eval, beta, g2)
        }
      else min_cols rec depth alpha row cols (min_eval, beta, g))"

fun min_rows ::
  "search \<Rightarrow> int \<Rightarrow> int \<Rightarrow> nat list \<Rightarrow> int \<times> int \<times> game \<Rightarrow> (int \<times> int \<times> game) option" where
  "min_rows rec depth alpha [] st = Some st"
| "min_rows rec depth alpha (row # rows) st =
     do {
       st1 \<leftarrow> min_cols rec depth alpha row [0..<3] st;
       min_rows rec depth alpha rows st1
     }"

text \<open>The loops are monotone in the recursive call, which the definition of \<open>minimax\<close> needs.\<close>

lemma max_cols_mono [partial_function_mono]:
  assumes "\<And>g d m a b. mono_option (\<lambda>f. F f g d m a b)"
  shows "mono_option (\<lambda>f. max_cols (F f) depth beta row cols st)"
  using assms
proof (induction cols arbitrary: st)
  case Nil
  then show ?case by (simp add: option.const_mono)
next
  case (Cons col cols)
  obtain me al g where st: "st = (me, al, g)" by (cases st)
  show ?case unfolding st max_cols.simps
    apply (intro partial_function_mono Cons)
    subgoal for y
      apply (cases y)
      apply (simp only: prod.case Let_def)
      apply (intro partial_function_mono Cons)
      done
    done
qed

lemma max_rows_mono [partial_function_mono]:
  assumes "\<And>g d m a b. mono_option (\<lambda>f. F f g d m a b)"
  shows "mono_option (\<lambda>f. max_rows (F f) depth beta rows st)"
  using assms
proof (induction rows arbitrary: st)
  case Nil
  then show ?case by (simp add: option.const_mono)
next
  case (Cons row rows)
  show ?case unfolding max_rows.simps
    by (intro partial_function_mono Cons max_cols_mono)
qed

lemma min_cols_mono [partial_function_mono]:
  assumes "\<And>g d m a b. mono_option (\<lambda>f. F f g d m a b)"
  shows "mono_option (\<lambda>f. min_cols (F f) depth alpha row cols st)"
  using assms
proof (induction cols arbitrary: st)
  case Nil
  then show ?case by (simp add: option.const_mono)
next
  case (Cons col cols)
  obtain me be g where st: "st = (me, be, g)" by (cases st)
  show ?case unfolding st min_cols.simps
    apply (intro partial_function_mono Cons)
    subgoal for y
      apply (cases y)
      apply (simp only: prod.case Let_def)
      apply (intro partial_function_mono Cons)
      done
    done
qed

lemma min_rows_mono [partial_function_mono]:
  assumes "\<And>g d m a b. mono_option (\<lambda>f. F f g d m a b)"
  shows "mono_option (\<lambda>f. min_rows (F f) depth alpha rows st)"
  using assms
proof (induction rows arbitrary: st)
  case Nil
  then show ?case by (simp add: option.const_mono)
next
  case (Cons row rows)
  show ?case unfolding min_rows.simps
    by (intro partial_function_mono Cons min_cols_mono)
qed

text \<open>\<open>None\<close> stands for a call that does not return.\<close>

partial_function (option) minimax :: "game \<Rightarrow> int \<Rightarrow> bool \<Rightarrow> int \<Rightarrow> int \<Rightarrow> (int \<times> game) option" where
  "minimax g depth is_maximizing alpha beta =
     (let winner = check_winner g in
      if winner = Some (npc_symbol g) then Some (10 - depth, g)
      else if winner = Some (player_symbol g) then Some (depth - 10, g)
      else if is_full g then Some (0, g)
      else if is_maximizing then
        do {
          (max_eval, alpha1, g1) \<leftarrow> max_rows minimax depth beta [0..<3] (- maxsize, alpha, g);
          Some (max_eval, g1)
        }
      else
        do {
          (min_eval, beta1, g1) \<leftarrow> min_rows minimax depth alpha [0..<3] (maxsize, beta, g);
          Some (min_eval, g1)
        })"

declare minimax.simps [code]

text \<open>
  The loop of \<open>hard_move\<close> has no \<open>break\<close>, so it runs over \<open>all_cells\<close>. Its state is
  \<open>best_score\<close>, \<open>best_move\<close> and the game.
\<close>

fun hard_move_loop ::
  "(nat \<times> nat) list \<Rightarrow> int \<times> (nat \<times> nat) option \<times> game \<Rightarrow> (int \<times> (nat \<times> nat) option \<times> game) option" where
  "hard_move_loop [] st = Some st"
| "hard_move_loop ((row, col) # rest) (best_score, best_move, g) =
     (if board g ! row ! col = None then
        do {
          (score, g1) \<leftarrow> minimax (put g row col (Some (npc_symbol g))) 0 False (- maxsize) maxsize;
          let g2 = put g1 row col None;
          if score > best_score then hard_move_loop rest (score, Some (row, col), g2)
          else hard_move_loop rest (best_score, best_move, g2)
        }
      else hard_move_loop rest (best_score, best_move, g))"

definition hard_move :: "game \<Rightarrow> ((nat \<times> nat) option \<times> game) option" where
  "hard_move g =
     do {
       (best_score, best_move, g1) \<leftarrow> hard_move_loop all_cells (- maxsize, None, g);
       Some (best_move, g1)
     }"

section \<open>Notions of the specification\<close>

text \<open>
  The specification names two failures of a placement. In the program both are an
  \<open>InvalidMoveError\<close>, told apart by the message.
\<close>

definition OutOfBounds :: error where
  "OutOfBounds = InvalidMoveError ''Row or column is out of bounds''"

definition CellOccupied :: error where
  "CellOccupied = InvalidMoveError ''Spot is already taken''"

text \<open>The number of cells that hold a symbol.\<close>

definition count_cells :: "symbol \<Rightarrow> game \<Rightarrow> nat" where
  "count_cells s g = count_list (concat (board g)) (Some s)"

text \<open>
  The controlled mutation path: from the state after \<open>__init__\<close>, a successful
  \<open>make_move\<close> followed by \<open>switch_player\<close>, any number of times.
\<close>

inductive reachable :: "game \<Rightarrow> bool" where
  init: "reachable new_game"
| move: "reachable g \<Longrightarrow> make_move g row col = (Inr True, g') \<Longrightarrow> reachable (switch_player g')"

text \<open>
  The outcome of a position, as the loop of \<open>play_game\<close> and the head of \<open>minimax\<close> derive it:
  first \<open>check_winner\<close>, then \<open>is_full\<close>.
\<close>

datatype outcome = InProgress | Win symbol | Draw

definition outcome :: "game \<Rightarrow> outcome" where
  "outcome g =
     (case check_winner g of
        Some winner \<Rightarrow> Win winner
      | None \<Rightarrow> if is_full g then Draw else InProgress)"

text \<open>
  The eight lines by their cells, in the order rows, columns, main diagonal, anti-diagonal;
  a line is complete when one symbol holds its three cells.
\<close>

definition line_cells :: "(nat \<times> nat) list list" where
  "line_cells =
     [[(0, 0), (0, 1), (0, 2)], [(1, 0), (1, 1), (1, 2)], [(2, 0), (2, 1), (2, 2)],
      [(0, 0), (1, 0), (2, 0)], [(0, 1), (1, 1), (2, 1)], [(0, 2), (1, 2), (2, 2)],
      [(0, 0), (1, 1), (2, 2)], [(0, 2), (1, 1), (2, 0)]]"

definition holds_line :: "board \<Rightarrow> symbol \<Rightarrow> (nat \<times> nat) list \<Rightarrow> bool" where
  "holds_line b s l = list_all (\<lambda>(r, c). b ! r ! c = Some s) l"

definition complete_line :: "board \<Rightarrow> (nat \<times> nat) list \<Rightarrow> bool" where
  "complete_line b l \<longleftrightarrow> holds_line b PX l \<or> holds_line b PO l"

text \<open>The test of \<open>check_winner\<close> on one line.\<close>

definition full_line :: "cell list \<Rightarrow> bool" where
  "full_line line \<longleftrightarrow> count_list line (line ! 0) = 3 \<and> line ! 0 \<noteq> None"

text \<open>A malformed board with two complete lines.\<close>

definition two_lines :: game where
  "two_lines = \<lparr> board = [[Some PX, Some PX, Some PX], [Some PO, Some PO, Some PO], [None, None, None]],
                 current_player = PX, player_symbol = PX, npc_symbol = PO \<rparr>"

text \<open>
  An empty cell completes a line for a symbol when the other two cells of some line through
  it hold that symbol.
\<close>

definition completes :: "board \<Rightarrow> symbol \<Rightarrow> nat \<times> nat \<Rightarrow> bool" where
  "completes b s rc \<longleftrightarrow>
     b ! fst rc ! snd rc = None \<and>
     list_ex (\<lambda>l. rc \<in> set l \<and> list_all (\<lambda>p. p = rc \<or> b ! fst p ! snd p = Some s) l) line_cells"

text \<open>The number of empty cells, the measure of the search.\<close>

definition count_empty :: "game \<Rightarrow> nat" where
  "count_empty g = count_list (concat (board g)) None"

text \<open>
  A score clamped to the window. Inside a window \<open>alpha < beta\<close> the search with cutoffs and
  plain minimax agree up to clamping; \<open>max_inv\<close> and \<open>min_inv\<close> are the invariants of the
  two loops, relating \<open>max_eval\<close> and \<open>alpha\<close> (\<open>min_eval\<close> and \<open>beta\<close>) to the plain
  value \<open>t\<close> of the cells passed so far: either no cutoff has happened and both agree above
  \<open>alpha\<close>, or a cutoff has happened and both are beyond the other bound.
\<close>

definition clamp :: "int \<Rightarrow> int \<Rightarrow> int \<Rightarrow> int" where
  "clamp lo hi v = max lo (min hi v)"

definition max_inv :: "int \<Rightarrow> int \<Rightarrow> int \<times> int \<Rightarrow> int \<Rightarrow> bool" where
  "max_inv a b st t \<longleftrightarrow>
     (case st of (max_eval, alpha) \<Rightarrow>
        (alpha < b \<and> alpha = max a max_eval \<and> max a max_eval = max a t) \<or> (b \<le> max_eval \<and> b \<le> t))"

definition min_inv :: "int \<Rightarrow> int \<Rightarrow> int \<times> int \<Rightarrow> int \<Rightarrow> bool" where
  "min_inv a b st t \<longleftrightarrow>
     (case st of (min_eval, beta) \<Rightarrow>
        (a < beta \<and> beta = min b min_eval \<and> min b min_eval = min b t) \<or> (min_eval \<le> a \<and> t \<le> a))"

text \<open>
  The score \<open>hard_move\<close> computes for an empty cell: it writes its own symbol and calls
  \<open>minimax(0, False, -sys.maxsize, sys.maxsize)\<close>.
\<close>

definition root_score :: "game \<Rightarrow> nat \<times> nat \<Rightarrow> int option" where
  "root_score g = (\<lambda>(row, col).
     map_option fst (minimax (put g row col (Some (npc_symbol g))) 0 False (- maxsize) maxsize))"

text \<open>
  The game as the strategy playing symbol \<open>s\<close> sees it: an object whose \<open>npc_symbol\<close> is
  \<open>s\<close>, asked for a move when it is the turn of \<open>s\<close>. The program itself only has the
  strategy play O.
\<close>

definition opponent :: "symbol \<Rightarrow> symbol" where
  "opponent s = (case s of PX \<Rightarrow> PO | PO \<Rightarrow> PX)"

definition as_npc :: "symbol \<Rightarrow> game \<Rightarrow> game" where
  "as_npc s g = \<lparr> board = board g, current_player = s, player_symbol = opponent s, npc_symbol = s \<rparr>"

text \<open>
  The end of a turn of \<open>play_game\<close>: the player is switched unless the game is over. A
  play is a sequence of turns from a position in progress; \<open>H\<close> tells which symbols take
  the move of \<open>hard_move\<close>, the others may take any legal move.
\<close>

definition finish_turn :: "game \<Rightarrow> game" where
  "finish_turn g = (if outcome g = InProgress then switch_player g else g)"

inductive plays :: "(symbol \<Rightarrow> bool) \<Rightarrow> game \<Rightarrow> game \<Rightarrow> bool" for H :: "symbol \<Rightarrow> bool" and g0 :: game where
  start: "plays H g0 g0"
| turn: "plays H g0 g \<Longrightarrow> outcome g = InProgress \<Longrightarrow>
         make_move g row col = (Inr True, g') \<Longrightarrow>
         (H (current_player g) \<longrightarrow>
            map_option fst (hard_move (as_npc (current_player g) g)) = Some (Some (nat row, nat col))) \<Longrightarrow>
         plays H g0 (finish_turn g')"

text \<open>
  Both sides take the move of \<open>hard_move\<close>, for at most \<open>n\<close> turns; the result is the
  outcome when the game ends within these turns.
\<close>

fun self_play :: "nat \<Rightarrow> game \<Rightarrow> outcome option" where
  "self_play 0 g = None"
| "self_play (Suc n) g =
     (case hard_move (as_npc (current_player g) g) of
        Some (Some (row, col), _) \<Rightarrow>
          (case make_move g (int row) (int col) of
             (Inr _, g') \<Rightarrow>
               if outcome g' = InProgress then self_play n (switch_player g') else Some (outcome g')
           | (Inl _, _) \<Rightarrow> None)
      | _ \<Rightarrow> None)"

text \<open>
  Who takes the move of \<open>hard_move\<close>: one side, or nobody (any legal play). \<open>run_moves\<close>
  plays a list of moves through \<open>make_move\<close>.
\<close>

definition follows :: "symbol \<Rightarrow> symbol \<Rightarrow> bool" where
  "follows s = (\<lambda>p. p = s)"

definition nobody :: "symbol \<Rightarrow> bool" where
  "nobody = (\<lambda>p. False)"

fun run_moves :: "game \<Rightarrow> (int \<times> int) list \<Rightarrow> game option" where
  "run_moves g [] = Some g"
| "run_moves g ((row, col) # ms) =
     (if outcome g = InProgress then
        (case make_move g row col of
           (Inr _, g') \<Rightarrow> run_moves (finish_turn g') ms
         | (Inl _, _) \<Rightarrow> None)
      else None)"

text \<open>The symbols as \<open>__init__\<close> sets them, on a three-by-three board.\<close>

definition standard :: "game \<Rightarrow> bool" where
  "standard g \<longleftrightarrow> wf_board (board g) \<and> player_symbol g = PX \<and> npc_symbol g = PO"

text \<open>
  A lazy search that certifies that the strategy's side can avoid defeat: at its own turns
  one safe cell is enough, tried in the order win, block, centre, corners, sides; at the
  other side's turns every cell must be safe.
\<close>

fun any_cell :: "('a \<Rightarrow> bool) \<Rightarrow> 'a list \<Rightarrow> bool" where
  "any_cell P [] = False"
| "any_cell P (x # xs) = (if P x then True else any_cell P xs)"

fun every_cell :: "('a \<Rightarrow> bool) \<Rightarrow> 'a list \<Rightarrow> bool" where
  "every_cell P [] = True"
| "every_cell P (x # xs) = (if P x then every_cell P xs else False)"

definition candidates :: "game \<Rightarrow> (nat \<times> nat) list" where
  "candidates g =
     (case fst (find_best_move g (npc_symbol g)) of
        Some move \<Rightarrow> [move]
      | None \<Rightarrow>
          (case fst (find_best_move g (player_symbol g)) of
             Some move \<Rightarrow> [move]
           | None \<Rightarrow> (1, 1) # corners @ sides))"

primrec no_loss :: "nat \<Rightarrow> game \<Rightarrow> bool \<Rightarrow> bool" where
  "no_loss 0 g m = False"
| "no_loss (Suc n) g m =
     (let winner = check_winner g in
      if winner = Some (npc_symbol g) then True
      else if winner = Some (player_symbol g) then False
      else if is_full g then True
      else if m then
        any_cell (\<lambda>(r, c). if (r, c) \<in> set (available_moves g)
                           then no_loss n (put g r c (Some (npc_symbol g))) False else False)
          (candidates g)
      else
        every_cell (\<lambda>(r, c). no_loss n (put g r c (Some (player_symbol g))) True)
          (available_moves g))"

text \<open>
  A position with four empty cells and O to move: X holds (0,0), (2,0), (2,2), O holds (0,2), (1,1).
\<close>

definition lost_pos :: game where
  "lost_pos = \<lparr> board = [[Some PX, None, Some PO], [None, Some PO, None], [Some PX, None, Some PX]],
                current_player = PO, player_symbol = PX, npc_symbol = PO \<rparr>"

text \<open>A full board without a complete line.\<close>

definition full_pos :: game where
  "full_pos = \<lparr> board = [[Some PX, Some PO, Some PX], [Some PX, Some PO, Some PO], [Some PO, Some PX, Some PX]],
                current_player = PO, player_symbol = PX, npc_symbol = PO \<rparr>"

text \<open>A position in which O wins at once at (0,2).\<close>

definition win_in_one :: game where
  "win_in_one = \<lparr> board = [[Some PO, Some PO, None], [Some PX, Some PX, None], [None, None, None]],
                  current_player = PO, player_symbol = PX, npc_symbol = PO \<rparr>"

text \<open>
  The two boards of the claim, with the strategy playing X, and a board on which X has
  already completed the middle row.
\<close>

definition x_can_win :: game where
  "x_can_win = \<lparr> board = [[Some PX, Some PX, None], [Some PO, Some PO, None], [None, None, None]],
                 current_player = PX, player_symbol = PO, npc_symbol = PX \<rparr>"

definition x_must_block :: game where
  "x_must_block = \<lparr> board = [[Some PO, Some PO, None], [Some PX, None, None], [None, None, None]],
                    current_player = PX, player_symbol = PO, npc_symbol = PX \<rparr>"

definition won_by_x :: game where
  "won_by_x = \<lparr> board = [[None, None, None], [Some PX, Some PX, Some PX], [Some PO, Some PO, None]],
                current_player = PO, player_symbol = PX, npc_symbol = PO \<rparr>"

text \<open>
  A position reached by three legal moves, with O to move and one threat of X to meet, and
  the position after the reply at (2,2).
\<close>

definition open_pos :: game where
  "open_pos = \<lparr> board = [[Some PX, None, Some PO], [None, Some PX, None], [None, None, None]],
                current_player = PO, player_symbol = PX, npc_symbol = PO \<rparr>"

definition open_reply :: game where
  "open_reply = \<lparr> board = [[Some PX, None, Some PO], [None, Some PX, None], [None, None, Some PO]],
                  current_player = PX, player_symbol = PX, npc_symbol = PO \<rparr>"

text \<open>Positions after \<open>lost_pos\<close>, and after an opening in the centre.\<close>

definition lost_mid :: game where
  "lost_mid = \<lparr> board = [[Some PX, Some PO, Some PO], [None, Some PO, None], [Some PX, None, Some PX]],
                current_player = PX, player_symbol = PX, npc_symbol = PO \<rparr>"

definition lost_end :: game where
  "lost_end = \<lparr> board = [[Some PX, Some PO, Some PO], [Some PX, Some PO, None], [Some PX, None, Some PX]],
                current_player = PX, player_symbol = PX, npc_symbol = PO \<rparr>"

definition centre_pos :: game where
  "centre_pos = \<lparr> board = [[None, None, None], [None, Some PX, None], [None, None, None]],
                  current_player = PO, player_symbol = PX, npc_symbol = PO \<rparr>"

definition reply_pos :: game where
  "reply_pos = \<lparr> board = [[Some PO, None, None], [None, Some PX, None], [None, None, None]],
                 current_player = PX, player_symbol = PX, npc_symbol = PO \<rparr>"

section \<open>Plain minimax\<close>

text \<open>
  The reference for the search is defined by recursion on the number of empty cells. The facts
  about boards that its termination needs come first.
\<close>

lemma list3E:
  assumes "length xs = 3"
  obtains a b c where "xs = [a, b, c]"
  using assms by (auto simp: numeral_3_eq_3 length_Suc_conv)

lemma wf_boardE:
  assumes "wf_board b"
  obtains a0 a1 a2 b0 b1 b2 c0 c1 c2
  where "b = [[a0, a1, a2], [b0, b1, b2], [c0, c1, c2]]"
proof -
  from assms obtain r0 r1 r2 where b: "b = [r0, r1, r2]"
    by (auto simp: wf_board_def elim: list3E)
  with assms have "length r0 = 3" "length r1 = 3" "length r2 = 3"
    by (simp_all add: wf_board_def)
  then show thesis using b that by (elim list3E) blast
qed

lemma put_board [simp]: "board (put g r c v) = set_cell (board g) r c v"
  and put_fields [simp]: "current_player (put g r c v) = current_player g"
    "player_symbol (put g r c v) = player_symbol g" "npc_symbol (put g r c v) = npc_symbol g"
  by (simp_all add: put_def)

lemma wf_board_set_cell [simp]: "wf_board (set_cell b r c v) = wf_board b"
proof -
  have "length (b[r := (b ! r)[c := v]]) = length b" by simp
  moreover have "list_all (\<lambda>row. length row = 3) (b[r := (b ! r)[c := v]]) = list_all (\<lambda>row. length row = 3) b"
    by (cases "r < length b") (auto simp: list_all_length nth_list_update)
  ultimately show ?thesis by (simp add: wf_board_def set_cell_def)
qed

lemma set_cell_same:
  "wf_board b \<Longrightarrow> r < 3 \<Longrightarrow> c < 3 \<Longrightarrow> set_cell b r c v ! r ! c = v"
  by (auto simp: set_cell_def wf_board_def list_all_length)

lemma set_cell_other:
  "(r', c') \<noteq> (r, c) \<Longrightarrow> set_cell b r c v ! r' ! c' = b ! r' ! c'"
  by (cases "r < length b"; cases "r' = r") (auto simp: set_cell_def nth_list_update list_update_beyond)

lemma set_cell_undo:
  "b ! r ! c = None \<Longrightarrow> set_cell (set_cell b r c v) r c None = b"
proof -
  assume "b ! r ! c = None"
  then have "(b ! r)[c := None] = b ! r" by (metis list_update_id)
  then show ?thesis
    by (cases "r < length b") (simp_all add: set_cell_def list_update_beyond)
qed

lemma put_undo:
  "board g ! r ! c = None \<Longrightarrow> put (put g r c v) r c None = g"
  by (simp add: put_def set_cell_undo)

lemma upt_3: "[0..<3] = [0, 1, 2]"
  by (simp add: numeral_3_eq_3 upt_rec)

lemma all_cells_eq:
  "all_cells = [(0, 0), (0, 1), (0, 2), (1, 0), (1, 1), (1, 2), (2, 0), (2, 1), (2, 2)]"
  by (simp add: all_cells_def upt_3)

lemma in_all_cells: "(r, c) \<in> set all_cells \<longleftrightarrow> r < 3 \<and> c < 3"
  by (force simp: all_cells_def)

lemma available_moves_iff:
  "(r, c) \<in> set (available_moves g) \<longleftrightarrow> r < 3 \<and> c < 3 \<and> board g ! r ! c = None"
  by (auto simp: available_moves_def in_all_cells)

lemma count_list_update_less:
  "i < length xs \<Longrightarrow> xs ! i = None \<Longrightarrow> count_list (xs[i := Some s]) None < count_list xs None"
  by (induction xs arbitrary: i) (auto simp: nth_Cons' split: nat.splits if_splits)

lemma count_concat_update_less:
  "r < length b \<Longrightarrow> count_list row x < count_list (b ! r) x \<Longrightarrow>
   count_list (concat (b[r := row])) x < count_list (concat b) x"
  by (induction b arbitrary: r) (auto simp: nth_Cons' split: nat.splits if_splits)

lemma count_empty_put:
  assumes "wf_board (board g)" "r < 3" "c < 3" "board g ! r ! c = None"
  shows "count_empty (put g r c (Some s)) < count_empty g"
proof -
  from assms(1,2) have r: "r < length (board g)" and "length (board g ! r) = 3"
    by (auto simp: wf_board_def list_all_length)
  with assms(3) have c: "c < length (board g ! r)" by simp
  show ?thesis unfolding count_empty_def put_board set_cell_def
    by (intro count_concat_update_less count_list_update_less r c assms(4))
qed

text \<open>
  The search of \<open>minimax\<close> with the two cutoffs \<open>if beta <= alpha: break\<close> removed, as a
  function of the position: without a cutoff every empty cell is tried, in row-major order,
  and \<open>alpha\<close> and \<open>beta\<close> are never read. Outside the three-by-three boards, where the
  program would raise, the value is fixed to 0.
\<close>

function plain_minimax :: "game \<Rightarrow> int \<Rightarrow> bool \<Rightarrow> int" where
  "plain_minimax g depth is_maximizing =
     (if \<not> wf_board (board g) then 0
      else
        let winner = check_winner g in
        if winner = Some (npc_symbol g) then 10 - depth
        else if winner = Some (player_symbol g) then depth - 10
        else if is_full g then 0
        else if is_maximizing then
          fold max
            (map (\<lambda>(row, col). plain_minimax (put g row col (Some (npc_symbol g))) (depth + 1) False)
               (available_moves g))
            (- maxsize)
        else
          fold min
            (map (\<lambda>(row, col). plain_minimax (put g row col (Some (player_symbol g))) (depth + 1) True)
               (available_moves g))
            maxsize)"
  by pat_completeness auto

termination
proof (relation "measure (\<lambda>(g, depth, is_maximizing). count_empty g)", goal_cases)
  case 1
  show ?case by simp
next
  case (2 g depth is_maximizing winner rc row col)
  then have "(row, col) \<in> set (available_moves g)" by simp
  then have "row < 3" "col < 3" "board g ! row ! col = None"
    by (simp_all add: available_moves_iff)
  moreover from 2 have "wf_board (board g)" by simp
  ultimately show ?case by (simp add: count_empty_put)
next
  case (3 g depth is_maximizing winner rc row col)
  then have "(row, col) \<in> set (available_moves g)" by simp
  then have "row < 3" "col < 3" "board g ! row ! col = None"
    by (simp_all add: available_moves_iff)
  moreover from 3 have "wf_board (board g)" by simp
  ultimately show ?case by (simp add: count_empty_put)
qed

declare plain_minimax.simps [simp del]

text \<open>
  The selection of \<open>hard_move\<close> over the scores of plain minimax: the cells are scanned in
  row-major order and the best cell is replaced on a strictly greater score.
\<close>

definition pick :: "game \<Rightarrow> nat \<times> nat \<Rightarrow> int \<times> (nat \<times> nat) option \<Rightarrow> int \<times> (nat \<times> nat) option" where
  "pick g = (\<lambda>(row, col) (best_score, best_move).
     let score = plain_minimax (put g row col (Some (npc_symbol g))) 0 False in
     if score > best_score then (score, Some (row, col)) else (best_score, best_move))"

definition plain_hard_move :: "game \<Rightarrow> (nat \<times> nat) option" where
  "plain_hard_move g = snd (fold (pick g) (available_moves g) (- maxsize, None))"

text \<open>The score of an empty cell by plain minimax.\<close>

definition plain_score :: "game \<Rightarrow> nat \<times> nat \<Rightarrow> int" where
  "plain_score g = (\<lambda>(row, col). plain_minimax (put g row col (Some (npc_symbol g))) 0 False)"

text \<open>
  A position is not lost for the side \<open>s\<close> when plain minimax, with \<open>s\<close> as the
  strategy's symbol, does not score it below 0.
\<close>

definition not_lost :: "symbol \<Rightarrow> game \<Rightarrow> bool" where
  "not_lost s g \<longleftrightarrow> 0 \<le> plain_minimax (as_npc s g) 0 (current_player g = s)"

section \<open>Properties\<close>

subsection \<open>The initial state\<close>

lemma wf_new_game: "wf_board (board new_game)"
  by (simp add: new_game_def wf_board_def numeral_3_eq_3)

subsection \<open>C5: \<open>make_move\<close> fails without writing, or writes one cell\<close>

text \<open>
  Claim C5. On a three-by-three board, \<open>make_move\<close> fails with \<open>OutOfBounds\<close> when the
  row or the column is outside \<open>[0,3)\<close>, fails with \<open>CellOccupied\<close> when the target cell
  is in bounds and not empty, and leaves the state as it was in both cases. When it succeeds
  it returns \<open>True\<close>, the target cell holds the current player's symbol, every other cell
  and every other field of the state is unchanged.
\<close>

theorem make_move_spec:
  assumes "wf_board (board g)"
  shows "(\<not> (0 \<le> row \<and> row < 3 \<and> 0 \<le> col \<and> col < 3) \<longrightarrow> make_move g row col = (Inl OutOfBounds, g))
    \<and> (0 \<le> row \<and> row < 3 \<and> 0 \<le> col \<and> col < 3 \<and> board g ! nat row ! nat col \<noteq> None \<longrightarrow>
         make_move g row col = (Inl CellOccupied, g))
    \<and> (0 \<le> row \<and> row < 3 \<and> 0 \<le> col \<and> col < 3 \<and> board g ! nat row ! nat col = None \<longrightarrow>
         (\<exists>g'. make_move g row col = (Inr True, g')
            \<and> board g' ! nat row ! nat col = Some (current_player g)
            \<and> (\<forall>r c. (r, c) \<noteq> (nat row, nat col) \<longrightarrow> board g' ! r ! c = board g ! r ! c)
            \<and> wf_board (board g')
            \<and> current_player g' = current_player g
            \<and> player_symbol g' = player_symbol g
            \<and> npc_symbol g' = npc_symbol g))"
proof (intro conjI impI)
  assume "\<not> (0 \<le> row \<and> row < 3 \<and> 0 \<le> col \<and> col < 3)"
  then show "make_move g row col = (Inl OutOfBounds, g)"
    by (simp add: make_move_def OutOfBounds_def)
next
  assume "0 \<le> row \<and> row < 3 \<and> 0 \<le> col \<and> col < 3 \<and> board g ! nat row ! nat col \<noteq> None"
  then show "make_move g row col = (Inl CellOccupied, g)"
    by (simp add: make_move_def CellOccupied_def)
next
  assume h: "0 \<le> row \<and> row < 3 \<and> 0 \<le> col \<and> col < 3 \<and> board g ! nat row ! nat col = None"
  let ?g' = "put g (nat row) (nat col) (Some (current_player g))"
  from h have mm: "make_move g row col = (Inr True, ?g')"
    by (simp add: make_move_def)
  from h have rc: "nat row < 3" "nat col < 3" by auto
  have "board ?g' ! nat row ! nat col = Some (current_player g)"
    using assms rc by (simp add: set_cell_same)
  moreover have "\<forall>r c. (r, c) \<noteq> (nat row, nat col) \<longrightarrow> board ?g' ! r ! c = board g ! r ! c"
    by (simp add: set_cell_other)
  moreover have "wf_board (board ?g')" using assms by simp
  ultimately show "\<exists>g'. make_move g row col = (Inr True, g')
            \<and> board g' ! nat row ! nat col = Some (current_player g)
            \<and> (\<forall>r c. (r, c) \<noteq> (nat row, nat col) \<longrightarrow> board g' ! r ! c = board g ! r ! c)
            \<and> wf_board (board g')
            \<and> current_player g' = current_player g
            \<and> player_symbol g' = player_symbol g
            \<and> npc_symbol g' = npc_symbol g"
    using mm by simp
qed

theorem make_move_spec_witness:
  "wf_board (board new_game)
   \<and> make_move new_game 3 0 = (Inl OutOfBounds, new_game)
   \<and> make_move (put new_game 1 1 (Some PX)) 1 1 = (Inl CellOccupied, put new_game 1 1 (Some PX))
   \<and> (\<exists>g'. make_move new_game 1 1 = (Inr True, g') \<and> board g' ! 1 ! 1 = Some PX)"
proof -
  have w1: "wf_board (board new_game)" by (rule wf_new_game)
  have w2: "wf_board (board (put new_game 1 1 (Some PX)))" using w1 by simp
  have occ: "board (put new_game 1 1 (Some PX)) ! nat 1 ! nat 1 \<noteq> None"
    by (simp add: new_game_def set_cell_def numeral_3_eq_3)
  have emp: "board new_game ! nat 1 ! nat 1 = None"
    by (simp add: new_game_def numeral_3_eq_3)
  have cp: "current_player new_game = PX" by (simp add: new_game_def)
  from make_move_spec [OF w1, of 3 0] make_move_spec [OF w2, of 1 1] make_move_spec [OF w1, of 1 1]
    occ emp cp w1
  show ?thesis by auto
qed

subsection \<open>C9: the counts of X and O cells\<close>

lemma count_set_cell:
  assumes "wf_board b" "r < 3" "c < 3" "b ! r ! c = None"
  shows "count_list (concat (set_cell b r c (Some s))) (Some t) =
         count_list (concat b) (Some t) + (if s = t then 1 else 0)"
proof -
  from assms(1) obtain a0 a1 a2 b0 b1 b2 c0 c1 c2
    where b: "b = [[a0, a1, a2], [b0, b1, b2], [c0, c1, c2]]" by (rule wf_boardE)
  from assms(2,3) have "r = 0 \<or> r = 1 \<or> r = 2" "c = 0 \<or> c = 1 \<or> c = 2" by arith+
  then show ?thesis using assms(4) unfolding b set_cell_def
    by (elim disjE) simp_all
qed

lemma count_cells_switch [simp]: "count_cells t (switch_player g) = count_cells t g"
  by (simp add: count_cells_def switch_player_def)

lemma reachable_inv:
  "reachable g \<Longrightarrow>
     wf_board (board g) \<and> player_symbol g = PX \<and> npc_symbol g = PO \<and>
     (if current_player g = PX then count_cells PX g = count_cells PO g
      else count_cells PX g = count_cells PO g + 1)"
proof (induction rule: reachable.induct)
  case init
  show ?case by (simp add: new_game_def wf_board_def count_cells_def numeral_3_eq_3)
next
  case (move g row col g')
  from move.hyps(2) have rc: "0 \<le> row" "row < 3" "0 \<le> col" "col < 3"
    and emp: "board g ! nat row ! nat col = None"
    and g': "g' = put g (nat row) (nat col) (Some (current_player g))"
    by (auto simp: make_move_def split: if_splits)
  from rc have n: "nat row < 3" "nat col < 3" by auto
  from move.IH have wf: "wf_board (board g)" by simp
  have cnt: "count_cells t g' = count_cells t g + (if current_player g = t then 1 else 0)" for t
    unfolding g' count_cells_def put_board by (rule count_set_cell [OF wf n emp])
  have "wf_board (board (switch_player g'))" "player_symbol (switch_player g') = player_symbol g"
    "npc_symbol (switch_player g') = npc_symbol g"
    "current_player (switch_player g') =
       (if current_player g = player_symbol g then npc_symbol g else player_symbol g)"
    using wf by (simp_all add: switch_player_def g')
  then show ?case using move.IH
    by (cases "current_player g") (simp_all add: cnt)
qed

text \<open>
  Claim C9. In every state reached from the initial state by successful moves, each
  followed by \<open>switch_player\<close>, the number of X cells equals the number of O cells or
  exceeds it by exactly one.
\<close>

theorem reachable_counts:
  assumes "reachable g"
  shows "count_cells PX g = count_cells PO g \<or> count_cells PX g = count_cells PO g + 1"
  using reachable_inv [OF assms] by (auto split: if_splits)

theorem reachable_counts_witness:
  "reachable (switch_player (put new_game 1 1 (Some PX)))
   \<and> (count_cells PX (switch_player (put new_game 1 1 (Some PX))) =
          count_cells PO (switch_player (put new_game 1 1 (Some PX)))
        \<or> count_cells PX (switch_player (put new_game 1 1 (Some PX))) =
          count_cells PO (switch_player (put new_game 1 1 (Some PX))) + 1)"
proof -
  have mv: "make_move new_game 1 1 = (Inr True, put new_game 1 1 (Some PX))"
    by (simp add: make_move_def new_game_def numeral_3_eq_3)
  have r: "reachable (switch_player (put new_game 1 1 (Some PX)))"
    by (rule reachable.move [OF reachable.init mv])
  from r reachable_counts [OF r] show ?thesis by (rule conjI)
qed

subsection \<open>C2: \<open>check_winner\<close> returns the first complete line\<close>

lemma complete_line_iff: "complete_line b l \<longleftrightarrow> (\<exists>s. holds_line b s l)"
  unfolding complete_line_def by (metis (full_types) symbol.exhaust)

lemma lines_eq:
  assumes "wf_board b"
  shows "lines b = map (map (\<lambda>(r, c). b ! r ! c)) line_cells"
proof -
  from assms obtain a0 a1 a2 b0 b1 b2 c0 c1 c2
    where b: "b = [[a0, a1, a2], [b0, b1, b2], [c0, c1, c2]]" by (rule wf_boardE)
  show ?thesis unfolding b by (simp add: lines_def line_cells_def upt_3)
qed

lemma scan_lines_find:
  "scan_lines ls = (case List.find full_line ls of None \<Rightarrow> None | Some line \<Rightarrow> line ! 0)"
  by (induction ls) (auto simp: full_line_def)

lemma full_line3:
  "full_line [p, q, r] \<longleftrightarrow> (\<exists>s. p = Some s \<and> q = Some s \<and> r = Some s)"
  by (auto simp: full_line_def)

lemma full_line_cells:
  assumes "l \<in> set line_cells"
  shows "full_line (map (\<lambda>(r, c). b ! r ! c) l) \<longleftrightarrow> complete_line b l"
    and "holds_line b s l \<Longrightarrow> map (\<lambda>(r, c). b ! r ! c) l ! 0 = Some s"
  using assms
  by (auto simp: line_cells_def full_line3 complete_line_iff holds_line_def)

lemma check_winner_Some_iff:
  assumes "wf_board (board g)"
  shows "check_winner g = Some s \<longleftrightarrow>
     (\<exists>i<8. holds_line (board g) s (line_cells ! i) \<and>
        (\<forall>j<i. \<not> complete_line (board g) (line_cells ! j)))"
proof -
  let ?f = "map (\<lambda>(r, c). board g ! r ! c)"
  let ?L = "map ?f line_cells"
  have len: "length line_cells = 8" by (simp add: line_cells_def)
  have cw: "check_winner g = (case List.find full_line ?L of None \<Rightarrow> None | Some line \<Rightarrow> line ! 0)"
    by (simp add: check_winner_def lines_eq [OF assms] scan_lines_find)
  have full: "full_line (?L ! i) \<longleftrightarrow> complete_line (board g) (line_cells ! i)" if "i < 8" for i
    using that full_line_cells(1) [of "line_cells ! i" "board g"] by (simp add: len)
  have first: "?L ! i ! 0 = Some t" if "i < 8" "holds_line (board g) t (line_cells ! i)" for i t
    using that full_line_cells(2) [of "line_cells ! i" "board g" t] by (simp add: len)
  show ?thesis
  proof
    assume "check_winner g = Some s"
    then obtain line where f: "List.find full_line ?L = Some line" and l0: "line ! 0 = Some s"
      by (auto simp: cw split: option.splits)
    from f obtain i where i: "i < 8" "full_line (?L ! i)" "line = ?L ! i"
      and before: "\<forall>j<i. \<not> full_line (?L ! j)"
      by (auto simp: find_Some_iff len)
    from i(1,2) obtain t where t: "holds_line (board g) t (line_cells ! i)"
      by (auto simp: full complete_line_iff)
    from first [OF i(1) t] l0 i(3) have "t = s" by simp
    moreover from before i(1) have "\<forall>j<i. \<not> complete_line (board g) (line_cells ! j)"
      by (auto simp: full)
    ultimately show "\<exists>i<8. holds_line (board g) s (line_cells ! i) \<and>
        (\<forall>j<i. \<not> complete_line (board g) (line_cells ! j))"
      using i(1) t by blast
  next
    assume "\<exists>i<8. holds_line (board g) s (line_cells ! i) \<and>
        (\<forall>j<i. \<not> complete_line (board g) (line_cells ! j))"
    then obtain i where i: "i < 8" "holds_line (board g) s (line_cells ! i)"
      and before: "\<forall>j<i. \<not> complete_line (board g) (line_cells ! j)" by blast
    from i have "full_line (?L ! i)" by (auto simp: full complete_line_iff)
    moreover from before i(1) have "\<forall>j<i. \<not> full_line (?L ! j)" by (auto simp: full)
    ultimately have "List.find full_line ?L = Some (?L ! i)"
      using i(1) by (auto simp: find_Some_iff len)
    then show "check_winner g = Some s" using first [OF i] by (simp add: cw)
  qed
qed

lemma scan_lines_None_iff: "scan_lines ls = None \<longleftrightarrow> (\<forall>line\<in>set ls. \<not> full_line line)"
  by (induction ls) (auto simp: full_line_def)

lemma check_winner_None_iff:
  assumes "wf_board (board g)"
  shows "check_winner g = None \<longleftrightarrow> (\<forall>l\<in>set line_cells. \<not> complete_line (board g) l)"
proof -
  have "check_winner g = None \<longleftrightarrow>
        (\<forall>l\<in>set line_cells. \<not> full_line (map (\<lambda>(r, c). board g ! r ! c) l))"
    by (simp add: check_winner_def lines_eq [OF assms] scan_lines_None_iff)
  also have "\<dots> \<longleftrightarrow> (\<forall>l\<in>set line_cells. \<not> complete_line (board g) l)"
    using full_line_cells(1) [of _ "board g"] by blast
  finally show ?thesis .
qed

lemma is_full_iff:
  assumes "wf_board (board g)"
  shows "is_full g \<longleftrightarrow> (\<forall>r<3. \<forall>c<3. board g ! r ! c \<noteq> None)"
proof -
  from assms obtain a0 a1 a2 b0 b1 b2 c0 c1 c2
    where b: "board g = [[a0, a1, a2], [b0, b1, b2], [c0, c1, c2]]" by (rule wf_boardE)
  show ?thesis unfolding is_full_def b
    by (simp add: numeral_3_eq_3 All_less_Suc) blast
qed

text \<open>
  Claim C2. On every three-by-three board, also one with several complete lines,
  \<open>check_winner\<close> returns the symbol of the first complete line in the order rows 0, 1, 2,
  columns 0, 1, 2, main diagonal, anti-diagonal, and \<open>None\<close> when no line is complete;
  \<open>is_full\<close> holds when no cell is empty; the outcome is a draw exactly when no line is
  complete and the board is full, and the game is in progress when no line is complete and a
  cell is empty.
\<close>

theorem check_winner_spec:
  assumes "wf_board (board g)"
  shows "(check_winner g = Some s \<longleftrightarrow>
            (\<exists>i<8. holds_line (board g) s (line_cells ! i) \<and>
               (\<forall>j<i. \<not> complete_line (board g) (line_cells ! j))))
    \<and> (check_winner g = None \<longleftrightarrow> (\<forall>l\<in>set line_cells. \<not> complete_line (board g) l))
    \<and> (is_full g \<longleftrightarrow> (\<forall>r<3. \<forall>c<3. board g ! r ! c \<noteq> None))
    \<and> (outcome g = Win s \<longleftrightarrow> check_winner g = Some s)
    \<and> (outcome g = Draw \<longleftrightarrow> check_winner g = None \<and> is_full g)
    \<and> (outcome g = InProgress \<longleftrightarrow> check_winner g = None \<and> \<not> is_full g)"
proof -
  have "outcome g = Win s \<longleftrightarrow> check_winner g = Some s"
    by (simp add: outcome_def split: option.splits)
  moreover have "outcome g = Draw \<longleftrightarrow> check_winner g = None \<and> is_full g"
    by (simp add: outcome_def split: option.splits)
  moreover have "outcome g = InProgress \<longleftrightarrow> check_winner g = None \<and> \<not> is_full g"
    by (simp add: outcome_def split: option.splits)
  ultimately show ?thesis
    using check_winner_Some_iff [OF assms, of s] check_winner_None_iff [OF assms]
      is_full_iff [OF assms]
    by (intro conjI)
qed

theorem check_winner_spec_witness:
  "wf_board (board two_lines)
   \<and> check_winner two_lines = Some PX
   \<and> (\<exists>i<8. holds_line (board two_lines) PX (line_cells ! i) \<and>
         (\<forall>j<i. \<not> complete_line (board two_lines) (line_cells ! j)))
   \<and> outcome two_lines = Win PX
   \<and> wf_board (board full_pos)
   \<and> check_winner full_pos = None \<and> is_full full_pos
   \<and> outcome full_pos = Draw
   \<and> outcome new_game = InProgress"
proof -
  have wf: "wf_board (board two_lines)" by (simp add: two_lines_def wf_board_def)
  have cw: "check_winner two_lines = Some PX"
    by (simp add: two_lines_def check_winner_def lines_def upt_3)
  have wf2: "wf_board (board full_pos)" by (simp add: full_pos_def wf_board_def)
  have cw2: "check_winner full_pos = None" and fl2: "is_full full_pos" by code_simp+
  have cw3: "check_winner new_game = None" and fl3: "\<not> is_full new_game" by code_simp+
  from check_winner_spec [OF wf, of PX] wf cw
  have a: "(\<exists>i<8. holds_line (board two_lines) PX (line_cells ! i) \<and>
         (\<forall>j<i. \<not> complete_line (board two_lines) (line_cells ! j)))
     \<and> outcome two_lines = Win PX" by simp
  from check_winner_spec [OF wf2, of PX] cw2 fl2
  have b: "outcome full_pos = Draw" by simp
  from check_winner_spec [OF wf_new_game, of PX] cw3 fl3
  have c: "outcome new_game = InProgress" by simp
  from a b c wf wf2 cw cw2 fl2 show ?thesis by simp
qed

subsection \<open>Plain minimax, and what \<open>minimax\<close> computes\<close>

lemma fold_max_ge: "(t::int) \<le> fold max xs t"
proof (induction xs arbitrary: t)
  case (Cons x xs)
  have "t \<le> max x t" by simp
  also have "\<dots> \<le> fold max xs (max x t)" by (rule Cons.IH)
  finally show ?case by simp
qed simp

lemma fold_min_le: "fold min xs (t::int) \<le> t"
proof (induction xs arbitrary: t)
  case (Cons x xs)
  have "fold min xs (min x t) \<le> min x t" by (rule Cons.IH)
  also have "\<dots> \<le> t" by simp
  finally show ?case by simp
qed simp

lemma max_inv_step:
  assumes "- maxsize \<le> a" "b \<le> maxsize" "max_inv a b (me, al) t"
    and "- maxsize \<le> al \<and> al < b \<and> b \<le> maxsize \<longrightarrow> clamp al b v = clamp al b w"
  shows "max_inv a b (max me v, max al v) (max w t)"
  using assms unfolding max_inv_def clamp_def prod.case
  by (auto simp: max_def min_def split: if_splits)

lemma max_inv_break:
  assumes "max_inv a b (me, al) t" "b \<le> al" "t \<le> t'"
  shows "max_inv a b (me, al) t'"
  using assms unfolding max_inv_def prod.case by linarith

lemma max_inv_init: "- maxsize \<le> a \<Longrightarrow> a < b \<Longrightarrow> max_inv a b (- maxsize, a) (- maxsize)"
  unfolding max_inv_def by simp

lemma max_inv_final: "a < b \<Longrightarrow> max_inv a b (me, al) t \<Longrightarrow> clamp a b me = clamp a b t"
  unfolding max_inv_def clamp_def prod.case by (auto simp: max_def min_def split: if_splits)

lemma min_inv_step:
  assumes "- maxsize \<le> a" "b \<le> maxsize" "min_inv a b (me, be) t"
    and "- maxsize \<le> a \<and> a < be \<and> be \<le> maxsize \<longrightarrow> clamp a be v = clamp a be w"
  shows "min_inv a b (min me v, min be v) (min w t)"
  using assms unfolding min_inv_def clamp_def prod.case
  by (auto simp: max_def min_def split: if_splits)

lemma min_inv_break:
  assumes "min_inv a b (me, be) t" "be \<le> a" "t' \<le> t"
  shows "min_inv a b (me, be) t'"
  using assms unfolding min_inv_def prod.case by linarith

lemma min_inv_init: "b \<le> maxsize \<Longrightarrow> a < b \<Longrightarrow> min_inv a b (maxsize, b) maxsize"
  unfolding min_inv_def by simp

lemma min_inv_final: "a < b \<Longrightarrow> min_inv a b (me, be) t \<Longrightarrow> clamp a b me = clamp a b t"
  unfolding min_inv_def clamp_def prod.case by (auto simp: max_def min_def split: if_splits)

lemma max_cols_spec:
  assumes rec: "\<And>c a'. c \<in> set cols \<Longrightarrow> board g ! row ! c = None \<Longrightarrow>
      \<exists>v. rec (put g row c (Some (npc_symbol g))) (d + 1) False a' b =
             Some (v, put g row c (Some (npc_symbol g))) \<and>
          (- maxsize \<le> a' \<and> a' < b \<and> b \<le> maxsize \<longrightarrow> clamp a' b v = clamp a' b (V c))"
  shows "\<exists>me' al'. max_cols rec d b row cols (me, al, g) = Some (me', al', g) \<and>
      (- maxsize \<le> a \<and> b \<le> maxsize \<and> max_inv a b (me, al) t \<longrightarrow>
         max_inv a b (me', al')
           (fold max (map V (filter (\<lambda>c. board g ! row ! c = None) cols)) t))"
  using rec
proof (induction cols arbitrary: me al t)
  case Nil
  show ?case by simp
next
  case (Cons c cols)
  show ?case
  proof (cases "board g ! row ! c = None")
    case False
    have "\<exists>me' al'. max_cols rec d b row cols (me, al, g) = Some (me', al', g) \<and>
      (- maxsize \<le> a \<and> b \<le> maxsize \<and> max_inv a b (me, al) t \<longrightarrow>
         max_inv a b (me', al')
           (fold max (map V (filter (\<lambda>c. board g ! row ! c = None) cols)) t))"
      by (rule Cons.IH) (rule Cons.prems, simp_all)
    then show ?thesis by (simp add: False)
  next
    case True
    let ?child = "put g row c (Some (npc_symbol g))"
    from Cons.prems [of c al] True obtain v
      where v: "rec ?child (d + 1) False al b = Some (v, ?child)"
        and ok: "- maxsize \<le> al \<and> al < b \<and> b \<le> maxsize \<longrightarrow> clamp al b v = clamp al b (V c)"
      by auto
    have undo: "put ?child row c None = g" using True by (rule put_undo)
    have step: "max_inv a b (max me v, max al v) (max (V c) t)"
      if "- maxsize \<le> a" "b \<le> maxsize" "max_inv a b (me, al) t"
      using that ok by (rule max_inv_step)
    show ?thesis
    proof (cases "b \<le> max al v")
      case brk: True
      have run: "max_cols rec d b row (c # cols) (me, al, g) = Some (max me v, max al v, g)"
        using True v undo brk by simp
      have "max_inv a b (max me v, max al v)
              (fold max (map V (filter (\<lambda>c. board g ! row ! c = None) (c # cols))) t)"
        if "- maxsize \<le> a" "b \<le> maxsize" "max_inv a b (me, al) t"
        using True max_inv_break [OF step [OF that] brk fold_max_ge] by simp
      with run show ?thesis by simp
    next
      case cont: False
      from Cons.IH [of "max me v" "max al v" "max (V c) t"] Cons.prems
      obtain me' al' where
        r: "max_cols rec d b row cols (max me v, max al v, g) = Some (me', al', g)"
        and i: "- maxsize \<le> a \<and> b \<le> maxsize \<and> max_inv a b (max me v, max al v) (max (V c) t) \<longrightarrow>
          max_inv a b (me', al')
            (fold max (map V (filter (\<lambda>c. board g ! row ! c = None) cols)) (max (V c) t))"
        by auto
      have run: "max_cols rec d b row (c # cols) (me, al, g) = Some (me', al', g)"
        using True v undo cont r by simp
      with i step True show ?thesis by simp
    qed
  qed
qed

lemma row_cells_filter:
  "map (\<lambda>(r, c). V r c) (filter (\<lambda>(r, c). P r c) (map (Pair row) cols)) =
   map (V row) (filter (P row) cols)"
  by (induction cols) simp_all

lemma max_rows_spec:
  assumes rec: "\<And>r c a'. r \<in> set rows \<Longrightarrow> c < 3 \<Longrightarrow> board g ! r ! c = None \<Longrightarrow>
      \<exists>v. rec (put g r c (Some (npc_symbol g))) (d + 1) False a' b =
             Some (v, put g r c (Some (npc_symbol g))) \<and>
          (- maxsize \<le> a' \<and> a' < b \<and> b \<le> maxsize \<longrightarrow> clamp a' b v = clamp a' b (V r c))"
  shows "\<exists>me' al'. max_rows rec d b rows (me, al, g) = Some (me', al', g) \<and>
      (- maxsize \<le> a \<and> b \<le> maxsize \<and> max_inv a b (me, al) t \<longrightarrow>
         max_inv a b (me', al')
           (fold max
              (map (\<lambda>(r, c). V r c)
                 (filter (\<lambda>(r, c). board g ! r ! c = None)
                    (concat (map (\<lambda>row. map (Pair row) [0..<3]) rows)))) t))"
  using rec
proof (induction rows arbitrary: me al t)
  case Nil
  show ?case by simp
next
  case (Cons row rows)
  let ?t1 = "fold max (map (V row) (filter (\<lambda>c. board g ! row ! c = None) [0..<3])) t"
  have "\<exists>me1 al1. max_cols rec d b row [0..<3] (me, al, g) = Some (me1, al1, g) \<and>
      (- maxsize \<le> a \<and> b \<le> maxsize \<and> max_inv a b (me, al) t \<longrightarrow> max_inv a b (me1, al1) ?t1)"
    by (rule max_cols_spec) (rule Cons.prems, simp_all)
  then obtain me1 al1
    where c: "max_cols rec d b row [0..<3] (me, al, g) = Some (me1, al1, g)"
      and ci: "- maxsize \<le> a \<and> b \<le> maxsize \<and> max_inv a b (me, al) t \<longrightarrow> max_inv a b (me1, al1) ?t1"
    by blast
  have "\<exists>me' al'. max_rows rec d b rows (me1, al1, g) = Some (me', al', g) \<and>
      (- maxsize \<le> a \<and> b \<le> maxsize \<and> max_inv a b (me1, al1) ?t1 \<longrightarrow>
         max_inv a b (me', al')
           (fold max
              (map (\<lambda>(r, c). V r c)
                 (filter (\<lambda>(r, c). board g ! r ! c = None)
                    (concat (map (\<lambda>row. map (Pair row) [0..<3]) rows)))) ?t1))"
    by (rule Cons.IH) (rule Cons.prems, simp_all)
  then obtain me' al'
    where r: "max_rows rec d b rows (me1, al1, g) = Some (me', al', g)"
      and ri: "- maxsize \<le> a \<and> b \<le> maxsize \<and> max_inv a b (me1, al1) ?t1 \<longrightarrow>
         max_inv a b (me', al')
           (fold max
              (map (\<lambda>(r, c). V r c)
                 (filter (\<lambda>(r, c). board g ! r ! c = None)
                    (concat (map (\<lambda>row. map (Pair row) [0..<3]) rows)))) ?t1)"
    by blast
  have "max_rows rec d b (row # rows) (me, al, g) = Some (me', al', g)"
    using c r by simp
  moreover have "fold max
              (map (\<lambda>(r, c). V r c)
                 (filter (\<lambda>(r, c). board g ! r ! c = None)
                    (concat (map (\<lambda>row. map (Pair row) [0..<3]) (row # rows))))) t =
        fold max
              (map (\<lambda>(r, c). V r c)
                 (filter (\<lambda>(r, c). board g ! r ! c = None)
                    (concat (map (\<lambda>row. map (Pair row) [0..<3]) rows)))) ?t1"
    by (simp add: row_cells_filter)
  ultimately show ?case using ci ri by simp
qed

lemma min_cols_spec:
  assumes rec: "\<And>c b'. c \<in> set cols \<Longrightarrow> board g ! row ! c = None \<Longrightarrow>
      \<exists>v. rec (put g row c (Some (player_symbol g))) (d + 1) True a b' =
             Some (v, put g row c (Some (player_symbol g))) \<and>
          (- maxsize \<le> a \<and> a < b' \<and> b' \<le> maxsize \<longrightarrow> clamp a b' v = clamp a b' (V c))"
  shows "\<exists>me' be'. min_cols rec d a row cols (me, be, g) = Some (me', be', g) \<and>
      (- maxsize \<le> a \<and> b \<le> maxsize \<and> min_inv a b (me, be) t \<longrightarrow>
         min_inv a b (me', be')
           (fold min (map V (filter (\<lambda>c. board g ! row ! c = None) cols)) t))"
  using rec
proof (induction cols arbitrary: me be t)
  case Nil
  show ?case by simp
next
  case (Cons c cols)
  show ?case
  proof (cases "board g ! row ! c = None")
    case False
    have "\<exists>me' be'. min_cols rec d a row cols (me, be, g) = Some (me', be', g) \<and>
      (- maxsize \<le> a \<and> b \<le> maxsize \<and> min_inv a b (me, be) t \<longrightarrow>
         min_inv a b (me', be')
           (fold min (map V (filter (\<lambda>c. board g ! row ! c = None) cols)) t))"
      by (rule Cons.IH) (rule Cons.prems, simp_all)
    then show ?thesis by (simp add: False)
  next
    case True
    let ?child = "put g row c (Some (player_symbol g))"
    from Cons.prems [of c be] True obtain v
      where v: "rec ?child (d + 1) True a be = Some (v, ?child)"
        and ok: "- maxsize \<le> a \<and> a < be \<and> be \<le> maxsize \<longrightarrow> clamp a be v = clamp a be (V c)"
      by auto
    have undo: "put ?child row c None = g" using True by (rule put_undo)
    have step: "min_inv a b (min me v, min be v) (min (V c) t)"
      if "- maxsize \<le> a" "b \<le> maxsize" "min_inv a b (me, be) t"
      using that ok by (rule min_inv_step)
    show ?thesis
    proof (cases "min be v \<le> a")
      case brk: True
      have run: "min_cols rec d a row (c # cols) (me, be, g) = Some (min me v, min be v, g)"
        using True v undo brk by simp
      have "min_inv a b (min me v, min be v)
              (fold min (map V (filter (\<lambda>c. board g ! row ! c = None) (c # cols))) t)"
        if "- maxsize \<le> a" "b \<le> maxsize" "min_inv a b (me, be) t"
        using True min_inv_break [OF step [OF that] brk fold_min_le] by simp
      with run show ?thesis by simp
    next
      case cont: False
      from Cons.IH [of "min me v" "min be v" "min (V c) t"] Cons.prems
      obtain me' be' where
        r: "min_cols rec d a row cols (min me v, min be v, g) = Some (me', be', g)"
        and i: "- maxsize \<le> a \<and> b \<le> maxsize \<and> min_inv a b (min me v, min be v) (min (V c) t) \<longrightarrow>
          min_inv a b (me', be')
            (fold min (map V (filter (\<lambda>c. board g ! row ! c = None) cols)) (min (V c) t))"
        by auto
      have run: "min_cols rec d a row (c # cols) (me, be, g) = Some (me', be', g)"
        using True v undo cont r by simp
      with i step True show ?thesis by simp
    qed
  qed
qed

lemma min_rows_spec:
  assumes rec: "\<And>r c b'. r \<in> set rows \<Longrightarrow> c < 3 \<Longrightarrow> board g ! r ! c = None \<Longrightarrow>
      \<exists>v. rec (put g r c (Some (player_symbol g))) (d + 1) True a b' =
             Some (v, put g r c (Some (player_symbol g))) \<and>
          (- maxsize \<le> a \<and> a < b' \<and> b' \<le> maxsize \<longrightarrow> clamp a b' v = clamp a b' (V r c))"
  shows "\<exists>me' be'. min_rows rec d a rows (me, be, g) = Some (me', be', g) \<and>
      (- maxsize \<le> a \<and> b \<le> maxsize \<and> min_inv a b (me, be) t \<longrightarrow>
         min_inv a b (me', be')
           (fold min
              (map (\<lambda>(r, c). V r c)
                 (filter (\<lambda>(r, c). board g ! r ! c = None)
                    (concat (map (\<lambda>row. map (Pair row) [0..<3]) rows)))) t))"
  using rec
proof (induction rows arbitrary: me be t)
  case Nil
  show ?case by simp
next
  case (Cons row rows)
  let ?t1 = "fold min (map (V row) (filter (\<lambda>c. board g ! row ! c = None) [0..<3])) t"
  have "\<exists>me1 be1. min_cols rec d a row [0..<3] (me, be, g) = Some (me1, be1, g) \<and>
      (- maxsize \<le> a \<and> b \<le> maxsize \<and> min_inv a b (me, be) t \<longrightarrow> min_inv a b (me1, be1) ?t1)"
    by (rule min_cols_spec) (rule Cons.prems, simp_all)
  then obtain me1 be1
    where c: "min_cols rec d a row [0..<3] (me, be, g) = Some (me1, be1, g)"
      and ci: "- maxsize \<le> a \<and> b \<le> maxsize \<and> min_inv a b (me, be) t \<longrightarrow> min_inv a b (me1, be1) ?t1"
    by blast
  have "\<exists>me' be'. min_rows rec d a rows (me1, be1, g) = Some (me', be', g) \<and>
      (- maxsize \<le> a \<and> b \<le> maxsize \<and> min_inv a b (me1, be1) ?t1 \<longrightarrow>
         min_inv a b (me', be')
           (fold min
              (map (\<lambda>(r, c). V r c)
                 (filter (\<lambda>(r, c). board g ! r ! c = None)
                    (concat (map (\<lambda>row. map (Pair row) [0..<3]) rows)))) ?t1))"
    by (rule Cons.IH) (rule Cons.prems, simp_all)
  then obtain me' be'
    where r: "min_rows rec d a rows (me1, be1, g) = Some (me', be', g)"
      and ri: "- maxsize \<le> a \<and> b \<le> maxsize \<and> min_inv a b (me1, be1) ?t1 \<longrightarrow>
         min_inv a b (me', be')
           (fold min
              (map (\<lambda>(r, c). V r c)
                 (filter (\<lambda>(r, c). board g ! r ! c = None)
                    (concat (map (\<lambda>row. map (Pair row) [0..<3]) rows)))) ?t1)"
    by blast
  have "min_rows rec d a (row # rows) (me, be, g) = Some (me', be', g)"
    using c r by simp
  moreover have "fold min
              (map (\<lambda>(r, c). V r c)
                 (filter (\<lambda>(r, c). board g ! r ! c = None)
                    (concat (map (\<lambda>row. map (Pair row) [0..<3]) (row # rows))))) t =
        fold min
              (map (\<lambda>(r, c). V r c)
                 (filter (\<lambda>(r, c). board g ! r ! c = None)
                    (concat (map (\<lambda>row. map (Pair row) [0..<3]) rows)))) ?t1"
    by (simp add: row_cells_filter)
  ultimately show ?case using ci ri by simp
qed

lemma minimax_spec:
  assumes "wf_board (board g)"
  shows "\<exists>v. minimax g d m a b = Some (v, g) \<and>
           (- maxsize \<le> a \<and> a < b \<and> b \<le> maxsize \<longrightarrow> clamp a b v = clamp a b (plain_minimax g d m))"
  using assms
proof (induction "count_empty g" arbitrary: g d m a b rule: less_induct)
  case less
  note wf = less.prems
  have IH: "\<exists>v. minimax (put g r c (Some s)) d' m' a' b' = Some (v, put g r c (Some s)) \<and>
           (- maxsize \<le> a' \<and> a' < b' \<and> b' \<le> maxsize \<longrightarrow>
              clamp a' b' v = clamp a' b' (plain_minimax (put g r c (Some s)) d' m'))"
    if "r < 3" "c < 3" "board g ! r ! c = None" for r c s d' m' a' b'
    using that wf by (intro less.hyps count_empty_put) simp_all
  have cells: "concat (map (\<lambda>row. map (Pair row) [0..<3]) [0..<3]) = all_cells"
    by (simp add: all_cells_def)
  consider (npc) "check_winner g = Some (npc_symbol g)"
    | (player) "check_winner g \<noteq> Some (npc_symbol g)" "check_winner g = Some (player_symbol g)"
    | (full) "check_winner g \<noteq> Some (npc_symbol g)" "check_winner g \<noteq> Some (player_symbol g)" "is_full g"
    | (maxi) "check_winner g \<noteq> Some (npc_symbol g)" "check_winner g \<noteq> Some (player_symbol g)"
        "\<not> is_full g" "m"
    | (mini) "check_winner g \<noteq> Some (npc_symbol g)" "check_winner g \<noteq> Some (player_symbol g)"
        "\<not> is_full g" "\<not> m"
    by blast
  then show ?case
  proof cases
    case npc
    then show ?thesis using wf by (simp add: minimax.simps [of g] plain_minimax.simps [of g])
  next
    case player
    then show ?thesis using wf by (simp add: minimax.simps [of g] plain_minimax.simps [of g])
  next
    case full
    then show ?thesis using wf by (simp add: minimax.simps [of g] plain_minimax.simps [of g])
  next
    case maxi
    let ?V = "\<lambda>r c. plain_minimax (put g r c (Some (npc_symbol g))) (d + 1) False"
    have "\<exists>me' al'. max_rows minimax d b [0..<3] (- maxsize, a, g) = Some (me', al', g) \<and>
      (- maxsize \<le> a \<and> b \<le> maxsize \<and> max_inv a b (- maxsize, a) (- maxsize) \<longrightarrow>
         max_inv a b (me', al')
           (fold max
              (map (\<lambda>(r, c). ?V r c)
                 (filter (\<lambda>(r, c). board g ! r ! c = None)
                    (concat (map (\<lambda>row. map (Pair row) [0..<3]) [0..<3])))) (- maxsize)))"
      by (rule max_rows_spec) (rule IH, simp_all)
    then obtain me' al'
      where run: "max_rows minimax d b [0..<3] (- maxsize, a, g) = Some (me', al', g)"
        and inv: "- maxsize \<le> a \<and> b \<le> maxsize \<and> max_inv a b (- maxsize, a) (- maxsize) \<longrightarrow>
           max_inv a b (me', al') (plain_minimax g d m)"
      using maxi wf by (auto simp: cells plain_minimax.simps [of g] available_moves_def)
    have "minimax g d m a b = Some (me', g)"
      using maxi run by (simp add: minimax.simps [of g])
    moreover have "clamp a b me' = clamp a b (plain_minimax g d m)"
      if "- maxsize \<le> a" "a < b" "b \<le> maxsize"
      using that inv max_inv_init [of a b] max_inv_final [of a b me' al'] by simp
    ultimately show ?thesis by simp
  next
    case mini
    let ?V = "\<lambda>r c. plain_minimax (put g r c (Some (player_symbol g))) (d + 1) True"
    have "\<exists>me' be'. min_rows minimax d a [0..<3] (maxsize, b, g) = Some (me', be', g) \<and>
      (- maxsize \<le> a \<and> b \<le> maxsize \<and> min_inv a b (maxsize, b) maxsize \<longrightarrow>
         min_inv a b (me', be')
           (fold min
              (map (\<lambda>(r, c). ?V r c)
                 (filter (\<lambda>(r, c). board g ! r ! c = None)
                    (concat (map (\<lambda>row. map (Pair row) [0..<3]) [0..<3])))) maxsize))"
      by (rule min_rows_spec) (rule IH, simp_all)
    then obtain me' be'
      where run: "min_rows minimax d a [0..<3] (maxsize, b, g) = Some (me', be', g)"
        and inv: "- maxsize \<le> a \<and> b \<le> maxsize \<and> min_inv a b (maxsize, b) maxsize \<longrightarrow>
           min_inv a b (me', be') (plain_minimax g d m)"
      using mini wf by (auto simp: cells plain_minimax.simps [of g] available_moves_def)
    have "minimax g d m a b = Some (me', g)"
      using mini run by (simp add: minimax.simps [of g])
    moreover have "clamp a b me' = clamp a b (plain_minimax g d m)"
      if "- maxsize \<le> a" "a < b" "b \<le> maxsize"
      using that inv min_inv_init [of b a] min_inv_final [of a b me' be'] by simp
    ultimately show ?thesis by simp
  qed
qed

subsection \<open>C4: \<open>hard_move\<close> selects the move of plain minimax\<close>

lemma fold_max_bounds:
  assumes "xs \<noteq> []" "\<forall>x\<in>set xs. lo \<le> x \<and> x \<le> hi" "t \<le> hi"
  shows "lo \<le> fold max xs (t::int) \<and> fold max xs t \<le> hi"
proof -
  have in_range: "lo \<le> fold max ys u \<and> fold max ys u \<le> hi"
    if "\<forall>x\<in>set ys. lo \<le> x \<and> x \<le> hi" "lo \<le> u" "u \<le> hi" for ys u
    using that by (induction ys arbitrary: u) (simp_all add: max_def)
  from assms(1) obtain x ys where xs: "xs = x # ys" by (cases xs) auto
  show ?thesis using assms(2,3) unfolding xs
    by (simp add: in_range max_def)
qed

lemma fold_min_bounds:
  assumes "xs \<noteq> []" "\<forall>x\<in>set xs. lo \<le> x \<and> x \<le> hi" "lo \<le> t"
  shows "lo \<le> fold min xs (t::int) \<and> fold min xs t \<le> hi"
proof -
  have in_range: "lo \<le> fold min ys u \<and> fold min ys u \<le> hi"
    if "\<forall>x\<in>set ys. lo \<le> x \<and> x \<le> hi" "lo \<le> u" "u \<le> hi" for ys u
    using that by (induction ys arbitrary: u) (simp_all add: min_def)
  from assms(1) obtain x ys where xs: "xs = x # ys" by (cases xs) auto
  show ?thesis using assms(2,3) unfolding xs
    by (simp add: in_range min_def)
qed

lemma available_moves_nonempty:
  assumes "wf_board (board g)" "\<not> is_full g"
  shows "available_moves g \<noteq> []"
proof -
  from assms obtain r c where "r < 3" "c < 3" "board g ! r ! c = None"
    by (auto simp: is_full_iff)
  then have "(r, c) \<in> set (available_moves g)" by (simp add: available_moves_iff)
  then show ?thesis by auto
qed

lemma available_moves_full:
  assumes "wf_board (board g)" "is_full g"
  shows "available_moves g = []"
proof -
  have "(r, c) \<notin> set (available_moves g)" for r c
    using assms by (auto simp: is_full_iff available_moves_iff)
  then show ?thesis by (cases "available_moves g") auto
qed

lemma count_empty_le: "wf_board (board g) \<Longrightarrow> count_empty g \<le> 9"
proof -
  assume "wf_board (board g)"
  then obtain a0 a1 a2 b0 b1 b2 c0 c1 c2
    where b: "board g = [[a0, a1, a2], [b0, b1, b2], [c0, c1, c2]]" by (rule wf_boardE)
  have "count_list xs x \<le> length xs" for xs :: "cell list" and x
    by (induction xs) auto
  from this [of "concat (board g)" None] show ?thesis by (simp add: count_empty_def b)
qed

lemma plain_minimax_bounds:
  assumes "wf_board (board g)"
  shows "\<bar>plain_minimax g d m\<bar> \<le> \<bar>d\<bar> + 10 + int (count_empty g)"
  using assms
proof (induction "count_empty g" arbitrary: g d m rule: less_induct)
  case less
  note wf = less.prems
  let ?B = "\<bar>d\<bar> + 10 + int (count_empty g)"
  have child: "- ?B \<le> plain_minimax (put g r c (Some s)) (d + 1) m' \<and>
               plain_minimax (put g r c (Some s)) (d + 1) m' \<le> ?B"
    if "(r, c) \<in> set (available_moves g)" for r c s m'
  proof -
    from that have rc: "r < 3" "c < 3" "board g ! r ! c = None"
      by (simp_all add: available_moves_iff)
    have lt: "count_empty (put g r c (Some s)) < count_empty g"
      using wf rc by (rule count_empty_put)
    have "\<bar>plain_minimax (put g r c (Some s)) (d + 1) m'\<bar>
          \<le> \<bar>d + 1\<bar> + 10 + int (count_empty (put g r c (Some s)))"
      using lt wf by (intro less.hyps) simp_all
    with lt show ?thesis by linarith
  qed
  have M: "?B \<le> maxsize" "- maxsize \<le> ?B" if "\<bar>d\<bar> + 19 \<le> maxsize"
    using that count_empty_le [OF wf] by simp_all
  consider (leaf) "check_winner g = Some (npc_symbol g) \<or> check_winner g = Some (player_symbol g) \<or> is_full g"
    | (maxi) "check_winner g \<noteq> Some (npc_symbol g)" "check_winner g \<noteq> Some (player_symbol g)"
        "\<not> is_full g" "m"
    | (mini) "check_winner g \<noteq> Some (npc_symbol g)" "check_winner g \<noteq> Some (player_symbol g)"
        "\<not> is_full g" "\<not> m"
    by blast
  then show ?case
  proof cases
    case leaf
    then show ?thesis using wf by (auto simp: plain_minimax.simps [of g] Let_def)
  next
    case maxi
    let ?xs = "map (\<lambda>(row, col). plain_minimax (put g row col (Some (npc_symbol g))) (d + 1) False)
                 (available_moves g)"
    have "- ?B \<le> fold max ?xs (- maxsize) \<and> fold max ?xs (- maxsize) \<le> ?B"
    proof (rule fold_max_bounds)
      show "?xs \<noteq> []" using available_moves_nonempty [OF wf maxi(3)] by simp
      show "\<forall>x\<in>set ?xs. - ?B \<le> x \<and> x \<le> ?B" using child by auto
      show "- maxsize \<le> ?B" by (simp add: maxsize_def)
    qed
    moreover have "plain_minimax g d m = fold max ?xs (- maxsize)"
      using maxi wf by (simp add: plain_minimax.simps [of g])
    ultimately show ?thesis by linarith
  next
    case mini
    let ?xs = "map (\<lambda>(row, col). plain_minimax (put g row col (Some (player_symbol g))) (d + 1) True)
                 (available_moves g)"
    have "- ?B \<le> fold min ?xs maxsize \<and> fold min ?xs maxsize \<le> ?B"
    proof (rule fold_min_bounds)
      show "?xs \<noteq> []" using available_moves_nonempty [OF wf mini(3)] by simp
      show "\<forall>x\<in>set ?xs. - ?B \<le> x \<and> x \<le> ?B" using child by auto
      show "- ?B \<le> maxsize" by (simp add: maxsize_def)
    qed
    moreover have "plain_minimax g d m = fold min ?xs maxsize"
      using mini wf by (simp add: plain_minimax.simps [of g])
    ultimately show ?thesis by linarith
  qed
qed

lemma minimax_root:
  assumes "wf_board (board g)"
  shows "minimax g 0 m (- maxsize) maxsize = Some (plain_minimax g 0 m, g)"
proof -
  from minimax_spec [OF assms, of 0 m "- maxsize" maxsize] obtain v
    where v: "minimax g 0 m (- maxsize) maxsize = Some (v, g)"
      and c: "clamp (- maxsize) maxsize v = clamp (- maxsize) maxsize (plain_minimax g 0 m)"
    by (auto simp: maxsize_def)
  from plain_minimax_bounds [OF assms, of 0 m] count_empty_le [OF assms]
  have "\<bar>plain_minimax g 0 m\<bar> \<le> 19" by simp
  with c have "v = plain_minimax g 0 m"
    by (auto simp: clamp_def maxsize_def max_def min_def split: if_splits)
  with v show ?thesis by simp
qed

lemma hard_move_loop_spec:
  assumes "wf_board (board g)" "set cells \<subseteq> set all_cells"
  shows "hard_move_loop cells (bs, bm, g) =
           Some (case fold (pick g) (filter (\<lambda>(r, c). board g ! r ! c = None) cells) (bs, bm) of
                   (bs', bm') \<Rightarrow> (bs', bm', g))"
  using assms(2)
proof (induction cells arbitrary: bs bm)
  case Nil
  show ?case by simp
next
  case (Cons rc cells)
  obtain r c where rc: "rc = (r, c)" by (cases rc)
  from Cons.prems rc have bnd: "r < 3" "c < 3" by (auto simp: in_all_cells)
  show ?case
  proof (cases "board g ! r ! c = None")
    case False
    have "set cells \<subseteq> set all_cells" using Cons.prems by simp
    from Cons.IH [OF this] show ?thesis by (simp add: rc False)
  next
    case True
    have root: "minimax (put g r c (Some (npc_symbol g))) 0 False (- maxsize) maxsize =
                  Some (plain_minimax (put g r c (Some (npc_symbol g))) 0 False,
                        put g r c (Some (npc_symbol g)))"
      using assms(1) by (intro minimax_root) simp
    have "set cells \<subseteq> set all_cells" using Cons.prems by simp
    from Cons.IH [OF this] show ?thesis
      by (simp add: rc True root put_undo pick_def Let_def)
  qed
qed

lemma hard_move_eq:
  assumes "wf_board (board g)"
  shows "hard_move g = Some (plain_hard_move g, g)"
  using hard_move_loop_spec [OF assms subset_refl, of "- maxsize" None]
  by (simp add: hard_move_def plain_hard_move_def available_moves_def split: prod.splits)

text \<open>
  Claim C4. On every three-by-three board, \<open>hard_move\<close>, which calls \<open>minimax\<close> with the
  window \<open>(-sys.maxsize, sys.maxsize)\<close> at each root call, returns the cell that the same
  selection returns over plain minimax, the search without the cutoffs (and leaves the board
  as it was).
\<close>

theorem hard_move_plain:
  assumes "wf_board (board g)"
  shows "hard_move g = Some (plain_hard_move g, g)"
  using assms by (rule hard_move_eq)

lemma wf_lost_pos: "wf_board (board lost_pos)"
  by (simp add: lost_pos_def wf_board_def)

theorem hard_move_plain_witness:
  "wf_board (board lost_pos) \<and> hard_move lost_pos = Some (Some (0, 1), lost_pos)
   \<and> plain_hard_move lost_pos = Some (0, 1)"
proof -
  have h: "hard_move lost_pos = Some (Some (0, 1), lost_pos)" by code_simp
  from hard_move_plain [OF wf_lost_pos] h wf_lost_pos show ?thesis by simp
qed

subsection \<open>C7: the strategies leave the board as they found it\<close>

lemma find_best_move_loop_frame: "snd (find_best_move_loop cells s g) = g"
proof (induction cells)
  case Nil
  show ?case by simp
next
  case (Cons rc cells)
  obtain r c where rc: "rc = (r, c)" by (cases rc)
  show ?case
  proof (cases "board g ! r ! c = None")
    case True
    then show ?thesis using Cons by (simp add: rc put_undo Let_def)
  next
    case False
    with Cons show ?thesis by (simp add: rc False)
  qed
qed

lemma find_best_move_frame: "snd (find_best_move g s) = g"
  by (simp add: find_best_move_def find_best_move_loop_frame)

lemma medium_move_frame: "snd (medium_move rnd g) = g"
proof -
  obtain r1 where f1: "find_best_move g (npc_symbol g) = (r1, g)"
    using find_best_move_frame [of g "npc_symbol g"] by (cases "find_best_move g (npc_symbol g)") simp
  obtain r2 where f2: "find_best_move g (player_symbol g) = (r2, g)"
    using find_best_move_frame [of g "player_symbol g"] by (cases "find_best_move g (player_symbol g)") simp
  show ?thesis
    by (simp add: medium_move_def f1 f2 Let_def split: option.splits)
qed

text \<open>
  Claim C7. Every decision procedure returns with the state it was called on: the probes of
  \<open>find_best_move\<close> (and so \<open>medium_move\<close>), every call of \<open>minimax\<close>, whatever the depth
  and the window, cutoffs included, and \<open>hard_move\<close>.
\<close>

theorem strategies_restore_board:
  assumes "wf_board (board g)"
  shows "snd (find_best_move g s) = g
    \<and> (\<exists>v. minimax g d m a b = Some (v, g))
    \<and> (\<exists>mv. hard_move g = Some (mv, g))
    \<and> snd (medium_move rnd g) = g"
  using minimax_spec [OF assms, of d m a b] hard_move_eq [OF assms]
  by (auto simp: find_best_move_frame medium_move_frame)

theorem strategies_restore_board_witness:
  "wf_board (board lost_pos)
   \<and> snd (find_best_move lost_pos PO) = lost_pos
   \<and> (\<exists>v. minimax lost_pos 0 True 3 (- 5) = Some (v, lost_pos))
   \<and> (\<exists>mv. hard_move lost_pos = Some (mv, lost_pos))
   \<and> snd (medium_move 0 lost_pos) = lost_pos"
  using strategies_restore_board [OF wf_lost_pos, of PO 0 True 3 "- 5" 0] wf_lost_pos by simp

subsection \<open>C10: \<open>minimax\<close> terminates\<close>

text \<open>
  Claim C10. On every three-by-three board, for every depth and every window, \<open>minimax\<close>
  returns, and so does \<open>hard_move\<close>; \<open>medium_move\<close> is a total function of the model. The
  reason is the measure: a board has at most nine empty cells and every recursive call is
  on a board with fewer empty cells.
\<close>

theorem minimax_terminates:
  assumes "wf_board (board g)"
  shows "(\<exists>res. minimax g depth is_maximizing alpha beta = Some res)
    \<and> (\<exists>res. hard_move g = Some res)
    \<and> (\<exists>res. medium_move rnd g = (res, g))
    \<and> count_empty g \<le> 9
    \<and> (\<forall>(row, col)\<in>set (available_moves g).
          wf_board (board (put g row col (Some s))) \<and>
          count_empty (put g row col (Some s)) < count_empty g)"
proof -
  have "count_empty (put g row col (Some s)) < count_empty g"
    if "(row, col) \<in> set (available_moves g)" for row col
    using that assms by (simp add: available_moves_iff count_empty_put)
  moreover have "\<exists>res. medium_move rnd g = (res, g)"
    using medium_move_frame [of rnd g] by (cases "medium_move rnd g") simp
  ultimately show ?thesis
    using minimax_spec [OF assms, of depth is_maximizing alpha beta] hard_move_eq [OF assms]
      count_empty_le [OF assms] assms
    by auto
qed

theorem minimax_terminates_witness:
  "wf_board (board lost_pos)
   \<and> (\<exists>res. minimax lost_pos 7 False 100 (- 100) = Some res)
   \<and> (\<exists>res. hard_move lost_pos = Some res)
   \<and> count_empty lost_pos \<le> 9
   \<and> count_empty (put lost_pos 0 1 (Some PO)) < count_empty lost_pos"
proof -
  have "(0, 1) \<in> set (available_moves lost_pos)"
    by (simp add: available_moves_iff lost_pos_def)
  with minimax_terminates [OF wf_lost_pos, of 7 False 100 "- 100" 0 PO] wf_lost_pos
  show ?thesis by auto
qed

subsection \<open>C8: the strategies on a full board\<close>

lemma find_best_move_loop_full:
  assumes "\<forall>(r, c)\<in>set cells. board g ! r ! c \<noteq> None"
  shows "find_best_move_loop cells s g = (None, g)"
  using assms by (induction cells) (auto simp del: not_None_eq)

text \<open>
  Claim C8 says that every strategy fails on a full board. \<open>random_move\<close> and
  \<open>medium_move\<close> raise the \<open>IndexError\<close> of \<open>random.choice\<close>; \<open>hard_move\<close> does not fail,
  it returns \<open>None\<close>.
\<close>

theorem strategies_on_full_board:
  assumes "wf_board (board g)" "is_full g"
  shows "hard_move g = Some (None, g)
    \<and> random_move rnd g = Inl IndexError
    \<and> fst (medium_move rnd g) = Inl IndexError"
proof -
  have av: "available_moves g = []" using assms by (rule available_moves_full)
  have full: "board g ! r ! c \<noteq> None" if "r < 3" "c < 3" for r c
    using assms that by (simp add: is_full_iff)
  have h: "hard_move g = Some (None, g)"
    using hard_move_eq [OF assms(1)] by (simp add: plain_hard_move_def av)
  have r: "random_move rnd g = Inl IndexError"
    by (simp add: random_move_def random_choice_def av)
  have nf: "\<forall>(r, c)\<in>set all_cells. board g ! r ! c \<noteq> None"
  proof (intro ballI, unfold split_paired_all prod.case)
    fix r c assume "(r, c) \<in> set all_cells"
    then show "board g ! r ! c \<noteq> None" by (intro full) (simp_all add: in_all_cells)
  qed
  have f: "find_best_move g s = (None, g)" for s
    unfolding find_best_move_def by (rule find_best_move_loop_full [OF nf])
  have m: "fst (medium_move rnd g) = Inl IndexError"
    using full [of 1 1] full [of 0 0] full [of 0 2] full [of 2 0] full [of 2 2]
      full [of 0 1] full [of 1 0] full [of 1 2] full [of 2 1]
    by (simp add: medium_move_def f r corners_def sides_def random_choice_def del: not_None_eq)
  from h r m show ?thesis by simp
qed

theorem strategies_on_full_board_witness:
  "wf_board (board full_pos) \<and> is_full full_pos
   \<and> hard_move full_pos = Some (None, full_pos)
   \<and> random_move 0 full_pos = Inl IndexError
   \<and> fst (medium_move 0 full_pos) = Inl IndexError"
proof -
  have wf: "wf_board (board full_pos)" by (simp add: full_pos_def wf_board_def)
  have fl: "is_full full_pos" by (simp add: full_pos_def is_full_def)
  from strategies_on_full_board [OF wf fl, of 0] wf fl show ?thesis by simp
qed

subsection \<open>C6: the scores of \<open>minimax\<close> and the selection of \<open>hard_move\<close>\<close>

lemma pick_plain_score:
  "pick g rc (bs, bm) = (if plain_score g rc > bs then (plain_score g rc, Some rc) else (bs, bm))"
  by (cases rc) (simp add: pick_def plain_score_def Let_def)

text \<open>A scan that replaces the best element on a strictly greater score ends at the first
  maximum.\<close>

lemma fold_pick_first_max:
  fixes f :: "'a \<Rightarrow> int"
  defines "step \<equiv> (\<lambda>x (bs, bm). if f x > bs then (f x, Some x) else (bs, bm))"
  shows "(fold step xs (b0, None) = (b0, None) \<and> (\<forall>x\<in>set xs. f x \<le> b0)) \<or>
         (\<exists>i<length xs. fold step xs (b0, None) = (f (xs ! i), Some (xs ! i)) \<and> b0 < f (xs ! i) \<and>
            (\<forall>j<length xs. f (xs ! j) \<le> f (xs ! i)) \<and> (\<forall>j<i. f (xs ! j) < f (xs ! i)))"
proof (induction xs rule: rev_induct)
  case Nil
  show ?case by simp
next
  case (snoc x xs)
  from snoc.IH show ?case
  proof (elim disjE conjE exE)
    assume st: "fold step xs (b0, None) = (b0, None)" and le0: "\<forall>x\<in>set xs. f x \<le> b0"
    have le: "\<forall>j<length xs. f (xs ! j) \<le> b0" using le0 by simp
    show ?thesis
    proof (cases "f x > b0")
      case True
      have "fold step (xs @ [x]) (b0, None) = (f ((xs @ [x]) ! length xs), Some ((xs @ [x]) ! length xs))"
        using st True by (simp add: step_def)
      moreover have "\<forall>j<length (xs @ [x]). f ((xs @ [x]) ! j) \<le> f ((xs @ [x]) ! length xs)"
        using le True by (auto simp: nth_append less_Suc_eq intro: order_trans less_imp_le)
      moreover have "\<forall>j<length xs. f ((xs @ [x]) ! j) < f ((xs @ [x]) ! length xs)"
        using le True by (auto simp: nth_append intro: le_less_trans)
      ultimately show ?thesis using True
        by (intro disjI2 exI [of _ "length xs"]) simp
    next
      case False
      then show ?thesis using st le0 by (simp add: step_def)
    qed
  next
    fix i
    assume i: "i < length xs"
      and st: "fold step xs (b0, None) = (f (xs ! i), Some (xs ! i))"
      and gt: "b0 < f (xs ! i)"
      and all: "\<forall>j<length xs. f (xs ! j) \<le> f (xs ! i)"
      and before: "\<forall>j<i. f (xs ! j) < f (xs ! i)"
    show ?thesis
    proof (cases "f x > f (xs ! i)")
      case True
      have "fold step (xs @ [x]) (b0, None) = (f ((xs @ [x]) ! length xs), Some ((xs @ [x]) ! length xs))"
        using st True by (simp add: step_def)
      moreover have "\<forall>j<length (xs @ [x]). f ((xs @ [x]) ! j) \<le> f ((xs @ [x]) ! length xs)"
        using all True by (auto simp: nth_append less_Suc_eq)
      moreover have "\<forall>j<length xs. f ((xs @ [x]) ! j) < f ((xs @ [x]) ! length xs)"
        using all True by (auto simp: nth_append)
      moreover have "b0 < f ((xs @ [x]) ! length xs)" using gt True by simp
      ultimately show ?thesis
        by (intro disjI2 exI [of _ "length xs"]) simp
    next
      case False
      have "fold step (xs @ [x]) (b0, None) = (f ((xs @ [x]) ! i), Some ((xs @ [x]) ! i))"
        using st False i by (simp add: step_def nth_append)
      moreover have "\<forall>j<length (xs @ [x]). f ((xs @ [x]) ! j) \<le> f ((xs @ [x]) ! i)"
        using all False i by (auto simp: nth_append less_Suc_eq)
      moreover have "\<forall>j<i. f ((xs @ [x]) ! j) < f ((xs @ [x]) ! i)"
        using before i by (auto simp: nth_append)
      moreover have "b0 < f ((xs @ [x]) ! i)" using gt i by (simp add: nth_append)
      ultimately show ?thesis using i
        by (intro disjI2 exI [of _ i]) simp
    qed
  qed
qed

lemma pick_eq: "pick g = (\<lambda>x (bs, bm). if plain_score g x > bs then (plain_score g x, Some x) else (bs, bm))"
  by (auto simp: fun_eq_iff pick_plain_score)

lemma plain_score_bounds:
  assumes "wf_board (board g)"
  shows "\<bar>plain_score g rc\<bar> \<le> 19"
proof -
  obtain r c where rc: "rc = (r, c)" by (cases rc)
  let ?g = "put g r c (Some (npc_symbol g))"
  have wf: "wf_board (board ?g)" using assms by simp
  from plain_minimax_bounds [OF wf, of 0 False] count_empty_le [OF wf]
  show ?thesis by (simp add: rc plain_score_def)
qed

lemma root_score_plain:
  assumes "wf_board (board g)"
  shows "root_score g rc = Some (plain_score g rc)"
proof -
  obtain r c where rc: "rc = (r, c)" by (cases rc)
  have "wf_board (board (put g r c (Some (npc_symbol g))))" using assms by simp
  from minimax_root [OF this, of False] show ?thesis
    by (simp add: rc root_score_def plain_score_def)
qed

lemma hard_move_selects:
  assumes "wf_board (board g)" "available_moves g \<noteq> []"
  shows "\<exists>i<length (available_moves g).
           hard_move_loop all_cells (- maxsize, None, g) =
             Some (plain_score g (available_moves g ! i), Some (available_moves g ! i), g) \<and>
           (\<forall>j<length (available_moves g).
               plain_score g (available_moves g ! j) \<le> plain_score g (available_moves g ! i)) \<and>
           (\<forall>j<i. plain_score g (available_moves g ! j) < plain_score g (available_moves g ! i))"
proof -
  let ?xs = "available_moves g"
  let ?step = "\<lambda>x (bs, bm). if plain_score g x > bs then (plain_score g x, Some x) else (bs, bm)"
  have loop: "hard_move_loop all_cells (- maxsize, None, g) =
      Some (case fold ?step ?xs (- maxsize, None) of (bs', bm') \<Rightarrow> (bs', bm', g))"
    using hard_move_loop_spec [OF assms(1) subset_refl, of "- maxsize" None]
    by (simp add: available_moves_def pick_eq)
  from assms(2) obtain x where x: "x \<in> set ?xs" by (cases ?xs) auto
  have "\<not> plain_score g x \<le> - maxsize"
    using plain_score_bounds [OF assms(1), of x] by (simp add: maxsize_def)
  with x have no: "\<not> (\<forall>x\<in>set ?xs. plain_score g x \<le> - maxsize)" by blast
  from fold_pick_first_max [of "plain_score g" ?xs "- maxsize"] no
  obtain i where "i < length ?xs"
    "fold ?step ?xs (- maxsize, None) = (plain_score g (?xs ! i), Some (?xs ! i))"
    "\<forall>j<length ?xs. plain_score g (?xs ! j) \<le> plain_score g (?xs ! i)"
    "\<forall>j<i. plain_score g (?xs ! j) < plain_score g (?xs ! i)"
    by blast
  then show ?thesis using loop by (intro exI [of _ i]) simp
qed

text \<open>
  Claim C6 has the root calls of \<open>minimax\<close> at depth 1. The program passes depth 0: on
  \<open>win_in_one\<close> the best score of \<open>hard_move\<close> is 10, and the call at depth 1 gives 9.
\<close>

theorem hard_move_depth_counterexample:
  "hard_move_loop all_cells (- maxsize, None, win_in_one) = Some (10, Some (0, 2), win_in_one)
   \<and> minimax (put win_in_one 0 2 (Some (npc_symbol win_in_one))) 1 False (- maxsize) maxsize =
       Some (9, put win_in_one 0 2 (Some (npc_symbol win_in_one)))"
  by code_simp

text \<open>
  Claim C6, with depth 0 at the root. A call of \<open>minimax\<close> at depth \<open>d\<close> on a finished
  position returns \<open>10 - d\<close> when the strategy's symbol has won, \<open>-(10 - d)\<close> when the
  other symbol has won, and 0 on a full board without winner. \<open>hard_move\<close> scans the empty
  cells in row-major order, scores each by \<open>root_score\<close> (own symbol written, \<open>minimax\<close>
  minimizing at depth 0 with the full window), and returns the first cell of greatest score:
  no cell scores more, and every cell before it scores less.
\<close>

theorem hard_move_scoring:
  assumes "wf_board (board g)"
  shows "(check_winner g = Some (npc_symbol g) \<longrightarrow> minimax g d m a b = Some (10 - d, g))
    \<and> (check_winner g = Some (player_symbol g) \<and> player_symbol g \<noteq> npc_symbol g \<longrightarrow>
         minimax g d m a b = Some (- (10 - d), g))
    \<and> (check_winner g = None \<and> is_full g \<longrightarrow> minimax g d m a b = Some (0, g))
    \<and> available_moves g =
         filter (\<lambda>(row, col). board g ! row ! col = None)
           [(0, 0), (0, 1), (0, 2), (1, 0), (1, 1), (1, 2), (2, 0), (2, 1), (2, 2)]
    \<and> (available_moves g \<noteq> [] \<longrightarrow>
         (\<exists>i<length (available_moves g). \<exists>best.
             hard_move_loop all_cells (- maxsize, None, g) = Some (best, Some (available_moves g ! i), g)
           \<and> hard_move g = Some (Some (available_moves g ! i), g)
           \<and> root_score g (available_moves g ! i) = Some best
           \<and> (\<forall>j<length (available_moves g). \<exists>v.
                 root_score g (available_moves g ! j) = Some v \<and> v \<le> best \<and> (j < i \<longrightarrow> v < best))))"
proof -
  have t1: "check_winner g = Some (npc_symbol g) \<longrightarrow> minimax g d m a b = Some (10 - d, g)"
    by (simp add: minimax.simps [of g])
  have t2: "check_winner g = Some (player_symbol g) \<and> player_symbol g \<noteq> npc_symbol g \<longrightarrow>
         minimax g d m a b = Some (- (10 - d), g)"
    by (simp add: minimax.simps [of g])
  have t3: "check_winner g = None \<and> is_full g \<longrightarrow> minimax g d m a b = Some (0, g)"
    by (simp add: minimax.simps [of g])
  have t4: "available_moves g =
         filter (\<lambda>(row, col). board g ! row ! col = None)
           [(0, 0), (0, 1), (0, 2), (1, 0), (1, 1), (1, 2), (2, 0), (2, 1), (2, 2)]"
    by (simp only: available_moves_def all_cells_eq)
  have t5: "\<exists>i<length (available_moves g). \<exists>best.
             hard_move_loop all_cells (- maxsize, None, g) = Some (best, Some (available_moves g ! i), g)
           \<and> hard_move g = Some (Some (available_moves g ! i), g)
           \<and> root_score g (available_moves g ! i) = Some best
           \<and> (\<forall>j<length (available_moves g). \<exists>v.
                 root_score g (available_moves g ! j) = Some v \<and> v \<le> best \<and> (j < i \<longrightarrow> v < best))"
    if ne: "available_moves g \<noteq> []"
  proof -
    from hard_move_selects [OF assms ne] obtain i where i: "i < length (available_moves g)"
      and loop: "hard_move_loop all_cells (- maxsize, None, g) =
             Some (plain_score g (available_moves g ! i), Some (available_moves g ! i), g)"
      and all: "\<forall>j<length (available_moves g).
               plain_score g (available_moves g ! j) \<le> plain_score g (available_moves g ! i)"
      and before: "\<forall>j<i. plain_score g (available_moves g ! j) < plain_score g (available_moves g ! i)"
      by blast
    have "hard_move g = Some (Some (available_moves g ! i), g)"
      by (simp add: hard_move_def loop)
    with i loop all before show ?thesis
      by (intro exI [of _ i] exI [of _ "plain_score g (available_moves g ! i)"])
         (simp add: root_score_plain [OF assms])
  qed
  from t1 t2 t3 t4 t5 show ?thesis by blast
qed

theorem hard_move_scoring_witness:
  "wf_board (board win_in_one)
   \<and> check_winner (put win_in_one 0 2 (Some PO)) = Some (npc_symbol (put win_in_one 0 2 (Some PO)))
   \<and> minimax (put win_in_one 0 2 (Some PO)) 3 True 0 1 = Some (7, put win_in_one 0 2 (Some PO))
   \<and> check_winner lost_end = Some (player_symbol lost_end)
   \<and> player_symbol lost_end \<noteq> npc_symbol lost_end
   \<and> minimax lost_end 2 True 0 1 = Some (- 8, lost_end)
   \<and> check_winner full_pos = None \<and> is_full full_pos
   \<and> minimax full_pos 5 False 0 1 = Some (0, full_pos)
   \<and> available_moves win_in_one \<noteq> []
   \<and> (\<exists>i<length (available_moves win_in_one). \<exists>best.
         hard_move win_in_one = Some (Some (available_moves win_in_one ! i), win_in_one)
       \<and> root_score win_in_one (available_moves win_in_one ! i) = Some best)"
proof -
  have wf: "wf_board (board win_in_one)" by (simp add: win_in_one_def wf_board_def)
  have wf2: "wf_board (board (put win_in_one 0 2 (Some PO)))" using wf by simp
  have wf3: "wf_board (board lost_end)" by (simp add: lost_end_def wf_board_def)
  have wf4: "wf_board (board full_pos)" by (simp add: full_pos_def wf_board_def)
  have cw: "check_winner (put win_in_one 0 2 (Some PO)) = Some (npc_symbol (put win_in_one 0 2 (Some PO)))"
    by code_simp
  have cw3: "check_winner lost_end = Some (player_symbol lost_end)"
    and ne3: "player_symbol lost_end \<noteq> npc_symbol lost_end" by code_simp+
  have cw4: "check_winner full_pos = None" and fl4: "is_full full_pos" by code_simp+
  have ne: "available_moves win_in_one \<noteq> []" by code_simp
  from hard_move_scoring [OF wf2, of 3 True 0 1] cw
  have "minimax (put win_in_one 0 2 (Some PO)) 3 True 0 1 = Some (7, put win_in_one 0 2 (Some PO))"
    by simp
  moreover from hard_move_scoring [OF wf3, of 2 True 0 1] cw3 ne3
  have "minimax lost_end 2 True 0 1 = Some (- 8, lost_end)" by simp
  moreover from hard_move_scoring [OF wf4, of 5 False 0 1] cw4 fl4
  have "minimax full_pos 5 False 0 1 = Some (0, full_pos)" by simp
  moreover from hard_move_scoring [OF wf, of 0 True 0 1] ne
  have "\<exists>i<length (available_moves win_in_one). \<exists>best.
         hard_move win_in_one = Some (Some (available_moves win_in_one ! i), win_in_one)
       \<and> root_score win_in_one (available_moves win_in_one ! i) = Some best"
    by blast
  ultimately show ?thesis using wf cw cw3 ne3 cw4 fl4 ne by blast
qed

subsection \<open>C3: the priority order of \<open>medium_move\<close>\<close>

lemma line_cells_in_range:
  "l \<in> set line_cells \<Longrightarrow> (r, c) \<in> set l \<Longrightarrow> r < 3 \<and> c < 3"
  by (auto simp: line_cells_def)

lemma holds_line_iff: "holds_line b s l \<longleftrightarrow> (\<forall>p\<in>set l. b ! fst p ! snd p = Some s)"
  by (auto simp: holds_line_def list_all_iff)

lemma check_winner_None_lines:
  assumes "wf_board (board g)" "check_winner g = None" "l \<in> set line_cells"
  shows "\<not> holds_line (board g) t l"
  using assms by (auto simp: check_winner_None_iff complete_line_iff)

lemma check_winner_SomeD:
  assumes "wf_board (board g)" "check_winner g = Some t"
  shows "\<exists>l\<in>set line_cells. holds_line (board g) t l"
proof -
  from assms obtain i where "i < 8" "holds_line (board g) t (line_cells ! i)"
    by (auto simp: check_winner_Some_iff)
  moreover have "length line_cells = 8" by (simp add: line_cells_def)
  ultimately show ?thesis by (metis nth_mem)
qed

lemma check_winner_after_put:
  assumes wf: "wf_board (board g)" and nowin: "check_winner g = None"
    and rc: "r < 3" "c < 3" "board g ! r ! c = None"
  shows "check_winner (put g r c (Some s)) = Some s \<longleftrightarrow> completes (board g) s (r, c)"
proof -
  let ?g = "put g r c (Some s)"
  have wf': "wf_board (board ?g)" using wf by simp
  have cell: "board ?g ! fst p ! snd p = (if p = (r, c) then Some s else board g ! fst p ! snd p)" for p
    using wf rc by (cases p) (auto simp: set_cell_same set_cell_other)
  have through: "(r, c) \<in> set l \<and> t = s \<and> (\<forall>p\<in>set l. p = (r, c) \<or> board g ! fst p ! snd p = Some s)"
    if l: "l \<in> set line_cells" and h: "holds_line (board ?g) t l" for l t
  proof -
    have hp: "(if p = (r, c) then Some s else board g ! fst p ! snd p) = Some t" if "p \<in> set l" for p
      using h that unfolding holds_line_iff cell by blast
    have "(r, c) \<in> set l"
    proof (rule ccontr)
      assume n: "(r, c) \<notin> set l"
      have "board g ! fst p ! snd p = Some t" if "p \<in> set l" for p
        using hp [OF that] that n by (cases "p = (r, c)") simp_all
      then have "holds_line (board g) t l" unfolding holds_line_iff by blast
      with check_winner_None_lines [OF wf nowin l] show False by simp
    qed
    moreover from hp [OF this] have ts: "t = s" by simp
    moreover have "p = (r, c) \<or> board g ! fst p ! snd p = Some s" if "p \<in> set l" for p
      using hp [OF that] ts by (cases "p = (r, c)") simp_all
    ultimately show ?thesis by blast
  qed
  show ?thesis
  proof
    assume "check_winner ?g = Some s"
    from check_winner_SomeD [OF wf' this] obtain l
      where l: "l \<in> set line_cells" and h: "holds_line (board ?g) s l" by blast
    from through [OF l h] l rc(3) show "completes (board g) s (r, c)"
      by (auto simp: completes_def list_ex_iff list_all_iff)
  next
    assume "completes (board g) s (r, c)"
    then obtain l where l: "l \<in> set line_cells" and m: "(r, c) \<in> set l"
      and o: "\<forall>p\<in>set l. p = (r, c) \<or> board g ! fst p ! snd p = Some s"
      by (auto simp: completes_def list_ex_iff list_all_iff)
    have h: "holds_line (board ?g) s l" unfolding holds_line_iff cell using o by auto
    have "check_winner ?g \<noteq> None"
      using l h by (auto simp: check_winner_None_iff [OF wf'] complete_line_iff)
    then obtain t where t: "check_winner ?g = Some t" by auto
    from check_winner_SomeD [OF wf' t] obtain l'
      where "l' \<in> set line_cells" "holds_line (board ?g) t l'" by blast
    from through [OF this] have "t = s" by simp
    with t show "check_winner ?g = Some s" by simp
  qed
qed

lemma find_best_move_loop_find:
  "find_best_move_loop cells s g =
     (List.find (\<lambda>(r, c). board g ! r ! c = None \<and> check_winner (put g r c (Some s)) = Some s) cells, g)"
proof (induction cells)
  case Nil
  show ?case by simp
next
  case (Cons rc cells)
  obtain r c where rc: "rc = (r, c)" by (cases rc)
  show ?case
  proof (cases "board g ! r ! c = None")
    case True
    then show ?thesis using Cons by (simp add: rc put_undo Let_def)
  next
    case False
    with Cons show ?thesis by (simp add: rc False)
  qed
qed

lemma find_best_move_completes:
  assumes "wf_board (board g)" "check_winner g = None"
  shows "find_best_move g s = (List.find (completes (board g) s) all_cells, g)"
proof -
  have "(board g ! r ! c = None \<and> check_winner (put g r c (Some s)) = Some s)
        = completes (board g) s (r, c)" if "(r, c) \<in> set all_cells" for r c
  proof (cases "board g ! r ! c = None")
    case True
    with that check_winner_after_put [OF assms _ _ True, of s] show ?thesis
      by (simp add: in_all_cells)
  next
    case False
    then show ?thesis by (simp add: completes_def False)
  qed
  then have "List.find (\<lambda>(r, c). board g ! r ! c = None \<and> check_winner (put g r c (Some s)) = Some s) all_cells
      = List.find (completes (board g) s) all_cells"
    by (intro find_cong) auto
  then show ?thesis by (simp add: find_best_move_def find_best_move_loop_find)
qed

lemma random_choice_mem:
  "xs \<noteq> [] \<Longrightarrow> \<exists>x\<in>set xs. random_choice rnd xs = Inr x"
  by (simp add: random_choice_def)

lemma cell_kinds:
  "(r, c) \<in> set all_cells \<Longrightarrow> (r, c) = (1, 1) \<or> (r, c) \<in> set corners \<or> (r, c) \<in> set sides"
  by (auto simp: all_cells_eq corners_def sides_def)

text \<open>
  Claim C3, for boards without a complete line. On every three-by-three board with no
  complete line and at least one empty cell, \<open>medium_move\<close> returns a move and leaves the
  board as it was. The move is the first cell, in row-major order, that completes a line for
  the strategy's own symbol, if there is one; otherwise the first cell that completes a line
  for the opponent, if there is one; otherwise the centre if it is empty; otherwise an empty
  corner; otherwise an empty side.
\<close>

theorem medium_move_priority:
  assumes wf: "wf_board (board g)" and nowin: "check_winner g = None"
    and ne: "available_moves g \<noteq> []"
  shows "\<exists>move. medium_move rnd g = (Inr move, g) \<and>
     (case List.find (completes (board g) (npc_symbol g)) all_cells of
        Some win \<Rightarrow> move = win
      | None \<Rightarrow>
          (case List.find (completes (board g) (player_symbol g)) all_cells of
             Some block \<Rightarrow> move = block
           | None \<Rightarrow>
               if board g ! 1 ! 1 = None then move = (1, 1)
               else if \<exists>corner\<in>set corners. board g ! fst corner ! snd corner = None
               then move \<in> set corners \<and> board g ! fst move ! snd move = None
               else move \<in> set sides \<and> board g ! fst move ! snd move = None))"
proof -
  let ?win = "List.find (completes (board g) (npc_symbol g)) all_cells"
  let ?block = "List.find (completes (board g) (player_symbol g)) all_cells"
  let ?cs = "filter (\<lambda>corner. board g ! fst corner ! snd corner = None) corners"
  let ?ss = "filter (\<lambda>side. board g ! fst side ! snd side = None) sides"
  note f = find_best_move_completes [OF wf nowin]
  show ?thesis
  proof (cases ?win)
    case (Some w)
    then show ?thesis by (simp add: medium_move_def f)
  next
    case nw: None
    show ?thesis
    proof (cases ?block)
      case (Some k)
      then show ?thesis by (simp add: medium_move_def f nw)
    next
      case nb: None
      show ?thesis
      proof (cases "board g ! 1 ! 1 = None")
        case True
        then show ?thesis by (simp add: medium_move_def f nw nb)
      next
        case False
        note centre = False False [unfolded One_nat_def]
        show ?thesis
        proof (cases "?cs = []")
          case False
          from random_choice_mem [OF False, of rnd] obtain x
            where x: "x \<in> set ?cs" "random_choice rnd ?cs = Inr x" by blast
          have ex: "\<exists>corner\<in>set corners. board g ! fst corner ! snd corner = None"
            using x(1) by auto
          have "medium_move rnd g = (Inr x, g)"
            using x(2) by (simp add: medium_move_def f nw nb Let_def centre False)
          with x(1) ex show ?thesis by (simp add: nw nb centre)
        next
          case nc: True
          then have nocorner: "\<not> (\<exists>corner\<in>set corners. board g ! fst corner ! snd corner = None)"
            by (simp add: filter_empty_conv)
          from ne obtain r c where rc: "(r, c) \<in> set (available_moves g)"
            by (cases "available_moves g") auto
          then have e: "board g ! r ! c = None" and a: "(r, c) \<in> set all_cells"
            by (simp_all add: available_moves_iff in_all_cells)
          have "(r, c) \<noteq> (1, 1)" using e False by auto
          moreover have "(r, c) \<notin> set corners" using e nocorner by auto
          ultimately have "(r, c) \<in> set sides" using cell_kinds [OF a] by blast
          with e have ns: "?ss \<noteq> []" by (force simp: filter_empty_conv)
          from random_choice_mem [OF ns, of rnd] obtain x
            where x: "x \<in> set ?ss" "random_choice rnd ?ss = Inr x" by blast
          have "medium_move rnd g = (Inr x, g)"
            using x(2) by (simp add: medium_move_def f nw nb Let_def centre nc ns)
          with x(1) show ?thesis by (simp add: nw nb centre nocorner)
        qed
      qed
    qed
  qed
qed

text \<open>
  Claim C3 as stated speaks of every board with an empty cell. On \<open>won_by_x\<close> the cell (2,2)
  is the first that completes a line for the strategy's symbol O, but \<open>check_winner\<close> finds
  the row of X first, so the probe for O fails everywhere, the probe for X succeeds at the
  first empty cell, and \<open>medium_move\<close> returns (0,0).
\<close>

theorem medium_move_priority_counterexample:
  "wf_board (board won_by_x) \<and> available_moves won_by_x \<noteq> []
   \<and> List.find (completes (board won_by_x) (npc_symbol won_by_x)) all_cells = Some (2, 2)
   \<and> medium_move 0 won_by_x = (Inr (0, 0), won_by_x)"
  by code_simp

theorem medium_move_priority_witness:
  "wf_board (board x_can_win) \<and> check_winner x_can_win = None \<and> available_moves x_can_win \<noteq> []
   \<and> medium_move 0 x_can_win = (Inr (0, 2), x_can_win)
   \<and> wf_board (board x_must_block) \<and> check_winner x_must_block = None
   \<and> available_moves x_must_block \<noteq> []
   \<and> medium_move 0 x_must_block = (Inr (0, 2), x_must_block)
   \<and> wf_board (board new_game) \<and> check_winner new_game = None \<and> available_moves new_game \<noteq> []
   \<and> medium_move 0 new_game = (Inr (1, 1), new_game)
   \<and> wf_board (board centre_pos) \<and> check_winner centre_pos = None
   \<and> available_moves centre_pos \<noteq> []
   \<and> (\<exists>move. medium_move 0 centre_pos = (Inr move, centre_pos) \<and> move \<in> set corners)"
proof -
  have w1: "wf_board (board x_can_win)" and n1: "check_winner x_can_win = None"
    and a1: "available_moves x_can_win \<noteq> []"
    and f1: "List.find (completes (board x_can_win) (npc_symbol x_can_win)) all_cells = Some (0, 2)"
    by code_simp+
  have w2: "wf_board (board x_must_block)" and n2: "check_winner x_must_block = None"
    and a2: "available_moves x_must_block \<noteq> []"
    and f2: "List.find (completes (board x_must_block) (npc_symbol x_must_block)) all_cells = None"
    and k2: "List.find (completes (board x_must_block) (player_symbol x_must_block)) all_cells = Some (0, 2)"
    by code_simp+
  have w3: "wf_board (board new_game)" and n3: "check_winner new_game = None"
    and a3: "available_moves new_game \<noteq> []"
    and f3: "List.find (completes (board new_game) (npc_symbol new_game)) all_cells = None"
    and k3: "List.find (completes (board new_game) (player_symbol new_game)) all_cells = None"
    and c3: "board new_game ! 1 ! 1 = None"
    by code_simp+
  have w4: "wf_board (board centre_pos)" and n4: "check_winner centre_pos = None"
    and a4: "available_moves centre_pos \<noteq> []"
    and f4: "List.find (completes (board centre_pos) (npc_symbol centre_pos)) all_cells = None"
    and k4: "List.find (completes (board centre_pos) (player_symbol centre_pos)) all_cells = None"
    and c4: "board centre_pos ! 1 ! 1 \<noteq> None"
    and e4: "\<exists>corner\<in>set corners. board centre_pos ! fst corner ! snd corner = None"
    by code_simp+
  from medium_move_priority [OF w1 n1 a1, of 0] f1
  have "medium_move 0 x_can_win = (Inr (0, 2), x_can_win)" by auto
  moreover from medium_move_priority [OF w2 n2 a2, of 0] f2 k2
  have "medium_move 0 x_must_block = (Inr (0, 2), x_must_block)" by auto
  moreover from medium_move_priority [OF w3 n3 a3, of 0] f3 k3 c3
  have "medium_move 0 new_game = (Inr (1, 1), new_game)" by auto
  moreover from medium_move_priority [OF w4 n4 a4, of 0]
  have "\<exists>move. medium_move 0 centre_pos = (Inr move, centre_pos) \<and> move \<in> set corners"
    by (simp only: f4 k4 c4 e4 option.case if_False if_True) blast
  ultimately show ?thesis using w1 n1 a1 w2 n2 a2 w3 n3 a3 w4 n4 a4 by blast
qed

subsection \<open>C1: \<open>hard_move\<close> does not lose\<close>

lemma any_cell_iff: "any_cell P xs \<longleftrightarrow> (\<exists>x\<in>set xs. P x)"
  by (induction xs) auto

lemma every_cell_iff: "every_cell P xs \<longleftrightarrow> (\<forall>x\<in>set xs. P x)"
  by (induction xs) auto

lemma fold_max_ge_iff: "t < v \<Longrightarrow> v \<le> fold max xs (t::int) \<longleftrightarrow> (\<exists>x\<in>set xs. v \<le> x)"
proof (induction xs arbitrary: t)
  case Nil
  then show ?case by simp
next
  case (Cons x xs)
  show ?case
  proof (cases "v \<le> x")
    case True
    have "v \<le> max x t" using True by simp
    also have "\<dots> \<le> fold max xs (max x t)" by (rule fold_max_ge)
    finally show ?thesis using True by simp
  next
    case False
    with Cons.prems have "max x t < v" by simp
    from Cons.IH [OF this] False show ?thesis by simp
  qed
qed

lemma fold_min_ge_iff: "v \<le> t \<Longrightarrow> v \<le> fold min xs (t::int) \<longleftrightarrow> (\<forall>x\<in>set xs. v \<le> x)"
proof (induction xs arbitrary: t)
  case Nil
  then show ?case by simp
next
  case (Cons x xs)
  show ?case
  proof (cases "v \<le> x")
    case True
    with Cons.prems have "v \<le> min x t" by simp
    from Cons.IH [OF this] True show ?thesis by simp
  next
    case False
    have "fold min xs (min x t) \<le> min x t" by (rule fold_min_le)
    also have "\<dots> \<le> x" by simp
    finally show ?thesis using False by auto
  qed
qed

lemma plain_minimax_max:
  assumes "wf_board (board g)" "check_winner g \<noteq> Some (npc_symbol g)"
    "check_winner g \<noteq> Some (player_symbol g)" "\<not> is_full g"
  shows "plain_minimax g d True =
           fold max (map (\<lambda>(row, col). plain_minimax (put g row col (Some (npc_symbol g))) (d + 1) False)
                      (available_moves g)) (- maxsize)"
  using assms by (simp add: plain_minimax.simps [of g])

lemma plain_minimax_min:
  assumes "wf_board (board g)" "check_winner g \<noteq> Some (npc_symbol g)"
    "check_winner g \<noteq> Some (player_symbol g)" "\<not> is_full g"
  shows "plain_minimax g d False =
           fold min (map (\<lambda>(row, col). plain_minimax (put g row col (Some (player_symbol g))) (d + 1) True)
                      (available_moves g)) maxsize"
  using assms by (simp add: plain_minimax.simps [of g])

lemma plain_minimax_leaf:
  assumes "wf_board (board g)"
    "check_winner g = Some (npc_symbol g) \<or> check_winner g = Some (player_symbol g) \<or> is_full g"
  shows "plain_minimax g d m =
           (if check_winner g = Some (npc_symbol g) then 10 - d
            else if check_winner g = Some (player_symbol g) then d - 10 else 0)"
  using assms by (auto simp: plain_minimax.simps [of g] Let_def)

lemma nonneg_max_iff:
  assumes "wf_board (board g)" "check_winner g \<noteq> Some (npc_symbol g)"
    "check_winner g \<noteq> Some (player_symbol g)" "\<not> is_full g"
  shows "0 \<le> plain_minimax g d True \<longleftrightarrow>
     (\<exists>row col. (row, col) \<in> set (available_moves g) \<and>
         0 \<le> plain_minimax (put g row col (Some (npc_symbol g))) (d + 1) False)"
proof -
  let ?f = "\<lambda>(row, col). plain_minimax (put g row col (Some (npc_symbol g))) (d + 1) False"
  have "0 \<le> fold max (map ?f (available_moves g)) (- maxsize) \<longleftrightarrow>
        (\<exists>x\<in>set (map ?f (available_moves g)). 0 \<le> x)"
    by (rule fold_max_ge_iff) (simp add: maxsize_def)
  also have "\<dots> \<longleftrightarrow> (\<exists>row col. (row, col) \<in> set (available_moves g) \<and>
         0 \<le> plain_minimax (put g row col (Some (npc_symbol g))) (d + 1) False)"
    by force
  finally show ?thesis unfolding plain_minimax_max [OF assms] .
qed

lemma nonneg_min_iff:
  assumes "wf_board (board g)" "check_winner g \<noteq> Some (npc_symbol g)"
    "check_winner g \<noteq> Some (player_symbol g)" "\<not> is_full g"
  shows "0 \<le> plain_minimax g d False \<longleftrightarrow>
     (\<forall>row col. (row, col) \<in> set (available_moves g) \<longrightarrow>
         0 \<le> plain_minimax (put g row col (Some (player_symbol g))) (d + 1) True)"
proof -
  let ?f = "\<lambda>(row, col). plain_minimax (put g row col (Some (player_symbol g))) (d + 1) True"
  have "0 \<le> fold min (map ?f (available_moves g)) maxsize \<longleftrightarrow>
        (\<forall>x\<in>set (map ?f (available_moves g)). 0 \<le> x)"
    by (rule fold_min_ge_iff) (simp add: maxsize_def)
  also have "\<dots> \<longleftrightarrow> (\<forall>row col. (row, col) \<in> set (available_moves g) \<longrightarrow>
         0 \<le> plain_minimax (put g row col (Some (player_symbol g))) (d + 1) True)"
    by force
  finally show ?thesis unfolding plain_minimax_min [OF assms] .
qed

lemma nonneg_depth:
  assumes "wf_board (board g)" "0 \<le> d" "d + int (count_empty g) \<le> 9"
    "0 \<le> d'" "d' + int (count_empty g) \<le> 9"
  shows "0 \<le> plain_minimax g d m \<longleftrightarrow> 0 \<le> plain_minimax g d' m"
  using assms
proof (induction "count_empty g" arbitrary: g d d' m rule: less_induct)
  case less
  note wf = less.prems(1)
  have child: "0 \<le> plain_minimax (put g r c (Some s)) (d + 1) m' \<longleftrightarrow>
               0 \<le> plain_minimax (put g r c (Some s)) (d' + 1) m'"
    if "(r, c) \<in> set (available_moves g)" for r c s m'
  proof -
    from that have rc: "r < 3" "c < 3" "board g ! r ! c = None"
      by (simp_all add: available_moves_iff)
    have lt: "count_empty (put g r c (Some s)) < count_empty g"
      using wf rc by (rule count_empty_put)
    show ?thesis using lt wf less.prems(2-) by (intro less.hyps) simp_all
  qed
  consider (leaf) "check_winner g = Some (npc_symbol g) \<or> check_winner g = Some (player_symbol g) \<or> is_full g"
    | (maxi) "check_winner g \<noteq> Some (npc_symbol g)" "check_winner g \<noteq> Some (player_symbol g)"
        "\<not> is_full g" "m"
    | (mini) "check_winner g \<noteq> Some (npc_symbol g)" "check_winner g \<noteq> Some (player_symbol g)"
        "\<not> is_full g" "\<not> m"
    by blast
  then show ?case
  proof cases
    case leaf
    show ?thesis unfolding plain_minimax_leaf [OF wf leaf] using less.prems by auto
  next
    case maxi
    have "0 \<le> plain_minimax g d True \<longleftrightarrow> 0 \<le> plain_minimax g d' True"
      unfolding nonneg_max_iff [OF wf maxi(1-3)] using child by blast
    then show ?thesis using maxi(4) by simp
  next
    case mini
    have "0 \<le> plain_minimax g d False \<longleftrightarrow> 0 \<le> plain_minimax g d' False"
      unfolding nonneg_min_iff [OF wf mini(1-3)] using child by blast
    then show ?thesis using mini(4) by simp
  qed
qed

lemma no_loss_sound:
  assumes "no_loss n g m" "wf_board (board g)" "0 \<le> d" "d + int (count_empty g) \<le> 9"
  shows "0 \<le> plain_minimax g d m"
  using assms
proof (induction n arbitrary: g m d)
  case 0
  then show ?case by simp
next
  case (Suc n)
  note wf = Suc.prems(2)
  have child: "0 \<le> plain_minimax (put g r c (Some s)) (d + 1) m'"
    if "(r, c) \<in> set (available_moves g)" "no_loss n (put g r c (Some s)) m'" for r c s m'
  proof -
    from that have rc: "r < 3" "c < 3" "board g ! r ! c = None"
      by (simp_all add: available_moves_iff)
    have lt: "count_empty (put g r c (Some s)) < count_empty g"
      using wf rc by (rule count_empty_put)
    show ?thesis using lt wf Suc.prems(3-) that(2) by (intro Suc.IH) simp_all
  qed
  consider (leaf) "check_winner g = Some (npc_symbol g) \<or> check_winner g = Some (player_symbol g) \<or> is_full g"
    | (maxi) "check_winner g \<noteq> Some (npc_symbol g)" "check_winner g \<noteq> Some (player_symbol g)"
        "\<not> is_full g" "m"
    | (mini) "check_winner g \<noteq> Some (npc_symbol g)" "check_winner g \<noteq> Some (player_symbol g)"
        "\<not> is_full g" "\<not> m"
    by blast
  then show ?case
  proof cases
    case leaf
    show ?thesis unfolding plain_minimax_leaf [OF wf leaf]
      using Suc.prems(1,3,4) by (auto simp: Let_def split: if_splits)
  next
    case maxi
    from Suc.prems(1) maxi obtain r c where "(r, c) \<in> set (available_moves g)"
      "no_loss n (put g r c (Some (npc_symbol g))) False"
      by (auto simp: any_cell_iff split: if_splits)
    from this child [OF this] have "0 \<le> plain_minimax g d True"
      unfolding nonneg_max_iff [OF wf maxi(1-3)] by blast
    then show ?thesis using maxi(4) by simp
  next
    case mini
    from Suc.prems(1) mini have "\<forall>r c. (r, c) \<in> set (available_moves g) \<longrightarrow>
        no_loss n (put g r c (Some (player_symbol g))) True"
      by (auto simp: every_cell_iff)
    with child have "0 \<le> plain_minimax g d False"
      unfolding nonneg_min_iff [OF wf mini(1-3)] by blast
    then show ?thesis using mini(4) by simp
  qed
qed

text \<open>The empty board is not lost, for the side that moves second and for the side that moves
  first.\<close>

lemma no_loss_second: "no_loss 10 (as_npc PO new_game) False"
  by code_simp

lemma no_loss_first: "no_loss 10 (as_npc PX new_game) True"
  by code_simp

lemma opponent_neq [simp]: "opponent s \<noteq> s" "s \<noteq> opponent s"
  by (cases s; simp add: opponent_def)+

lemma opponent_opponent [simp]: "opponent (opponent s) = s"
  by (cases s) (simp_all add: opponent_def)

lemma opponent_other: "t \<noteq> s \<Longrightarrow> t = opponent s"
  by (cases s; cases t; simp add: opponent_def)

lemma as_npc_simps [simp]:
  "board (as_npc s g) = board g" "current_player (as_npc s g) = s"
  "player_symbol (as_npc s g) = opponent s" "npc_symbol (as_npc s g) = s"
  by (simp_all add: as_npc_def)

lemma as_npc_reads [simp]:
  "check_winner (as_npc s g) = check_winner g" "is_full (as_npc s g) = is_full g"
  "available_moves (as_npc s g) = available_moves g" "outcome (as_npc s g) = outcome g"
  "count_empty (as_npc s g) = count_empty g"
  by (simp_all add: check_winner_def is_full_def available_moves_def outcome_def count_empty_def)

lemma as_npc_put [simp]: "as_npc s (put g r c v) = put (as_npc s g) r c v"
  by (simp add: as_npc_def put_def)

lemma as_npc_switch [simp]: "as_npc s (switch_player g) = as_npc s g"
  by (simp add: as_npc_def switch_player_def)

lemma as_npc_finish [simp]: "as_npc s (finish_turn g) = as_npc s g"
  by (simp add: finish_turn_def)

lemma outcome_put_fields [simp]: "outcome (switch_player g) = outcome g"
  by (simp add: outcome_def check_winner_def is_full_def switch_player_def)

lemma outcome_board: "board g = board h \<Longrightarrow> outcome g = outcome h"
  by (simp add: outcome_def check_winner_def is_full_def)

lemma make_move_success:
  assumes "make_move g row col = (Inr True, g')"
  shows "g' = put g (nat row) (nat col) (Some (current_player g))"
    and "(nat row, nat col) \<in> set (available_moves g)"
    and "row = int (nat row)" "col = int (nat col)"
  using assms by (auto simp: make_move_def available_moves_iff split: if_splits)

lemma make_move_available:
  assumes "(r, c) \<in> set (available_moves g)"
  shows "make_move g (int r) (int c) = (Inr True, put g r c (Some (current_player g)))"
  using assms by (simp add: make_move_def available_moves_iff)

lemma in_progress_iff: "outcome g = InProgress \<longleftrightarrow> check_winner g = None \<and> \<not> is_full g"
  by (simp add: outcome_def split: option.splits)

lemma plain_minimax_finished:
  assumes "wf_board (board g)" "outcome g \<noteq> InProgress" "player_symbol g = opponent (npc_symbol g)"
  shows "plain_minimax g d m = plain_minimax g d m'"
proof -
  have "check_winner g = Some (npc_symbol g) \<or> check_winner g = Some (player_symbol g) \<or> is_full g"
  proof (cases "check_winner g")
    case None
    with assms(2) show ?thesis by (simp add: in_progress_iff)
  next
    case (Some t)
    then show ?thesis using assms(3) opponent_other [of t "npc_symbol g"] by auto
  qed
  from plain_minimax_leaf [OF assms(1) this] show ?thesis by simp
qed

lemma standard_turn:
  assumes "standard g"
  shows "standard (finish_turn (put g r c v))"
    and "outcome (put g r c v) = InProgress \<Longrightarrow>
         current_player (finish_turn (put g r c v)) = opponent (current_player g)"
    and "outcome (put g r c v) \<noteq> InProgress \<Longrightarrow> outcome (finish_turn (put g r c v)) \<noteq> InProgress"
  using assms
  by (auto simp: standard_def finish_turn_def switch_player_def opponent_def split: symbol.splits)

lemma child_depth:
  assumes "wf_board (board g)" "(r, c) \<in> set (available_moves g)"
  shows "0 \<le> plain_minimax (put g r c (Some t)) (0 + 1) m \<longleftrightarrow>
         0 \<le> plain_minimax (put g r c (Some t)) 0 m"
proof -
  have "count_empty (put g r c (Some t)) < count_empty g"
    using assms by (intro count_empty_put) (simp_all add: available_moves_iff)
  with count_empty_le [OF assms(1)] have "int (count_empty (put g r c (Some t))) \<le> 8" by simp
  then show ?thesis using assms(1) by (intro nonneg_depth) simp_all
qed

lemma hard_move_best:
  assumes wf: "wf_board (board g)"
    and h: "map_option fst (hard_move g) = Some (Some (r, c))"
    and av: "(r', c') \<in> set (available_moves g)"
  shows "(r, c) \<in> set (available_moves g)"
    and "plain_score g (r', c') \<le> plain_score g (r, c)"
proof -
  from av have ne: "available_moves g \<noteq> []" by auto
  from hard_move_selects [OF wf ne] obtain i where i: "i < length (available_moves g)"
    and loop: "hard_move_loop all_cells (- maxsize, None, g) =
             Some (plain_score g (available_moves g ! i), Some (available_moves g ! i), g)"
    and all: "\<forall>j<length (available_moves g).
               plain_score g (available_moves g ! j) \<le> plain_score g (available_moves g ! i)"
    by blast
  from loop h have rc: "(r, c) = available_moves g ! i" by (simp add: hard_move_def)
  then show "(r, c) \<in> set (available_moves g)" using i by simp
  from av obtain j where "j < length (available_moves g)" "available_moves g ! j = (r', c')"
    by (auto simp: in_set_conv_nth)
  with all rc show "plain_score g (r', c') \<le> plain_score g (r, c)" by auto
qed

lemma plays_invariant:
  assumes "plays (\<lambda>p. p = s) g0 g" "standard g0"
    "0 \<le> plain_minimax (as_npc s g0) 0 (current_player g0 = s)"
  shows "standard g \<and> 0 \<le> plain_minimax (as_npc s g) 0 (current_player g = s)"
  using assms
proof (induction rule: plays.induct)
  case start
  then show ?case by simp
next
  case (turn g row col g')
  from turn.IH turn.prems have st: "standard g"
    and inv: "0 \<le> plain_minimax (as_npc s g) 0 (current_player g = s)" by simp_all
  let ?G = "as_npc s g"
  let ?r = "nat row" and ?c = "nat col"
  from make_move_success [OF turn.hyps(3)]
  have g': "g' = put g ?r ?c (Some (current_player g))"
    and av: "(?r, ?c) \<in> set (available_moves ?G)" by simp_all
  from st have wf: "wf_board (board ?G)" by (simp add: standard_def)
  from turn.hyps(2) have nw: "check_winner ?G \<noteq> Some (npc_symbol ?G)"
    "check_winner ?G \<noteq> Some (player_symbol ?G)" "\<not> is_full ?G"
    by (simp_all add: in_progress_iff)
  let ?X = "put ?G ?r ?c (Some (current_player g))"
  have wfX: "wf_board (board ?X)" using wf by simp
  have view: "as_npc s (finish_turn g') = ?X" by (simp add: g')
  have fin: "plain_minimax ?X 0 m = plain_minimax ?X 0 m'" if "outcome g' \<noteq> InProgress" for m m'
  proof -
    have "outcome ?X = outcome g'" by (rule outcome_board) (simp add: g')
    with that wfX show ?thesis by (intro plain_minimax_finished) simp_all
  qed
  have key: "0 \<le> plain_minimax ?X 0 (current_player g \<noteq> s)"
  proof (cases "current_player g = s")
    case True
    with turn.hyps(4) have h: "map_option fst (hard_move ?G) = Some (Some (?r, ?c))" by simp
    from inv True have "0 \<le> plain_minimax ?G 0 True" by simp
    then obtain r0 c0 where rc0: "(r0, c0) \<in> set (available_moves ?G)"
      and "0 \<le> plain_minimax (put ?G r0 c0 (Some (npc_symbol ?G))) (0 + 1) False"
      unfolding nonneg_max_iff [OF wf nw] by blast
    then have "0 \<le> plain_score ?G (r0, c0)"
      by (simp only: child_depth [OF wf rc0] plain_score_def prod.case)
    also have "\<dots> \<le> plain_score ?G (?r, ?c)" using wf h rc0 by (rule hard_move_best(2))
    finally show ?thesis using True by (simp add: plain_score_def)
  next
    case False
    then have cp: "current_player g = opponent s" by (rule opponent_other)
    from inv False have "0 \<le> plain_minimax ?G 0 False" by simp
    then have "0 \<le> plain_minimax (put ?G ?r ?c (Some (player_symbol ?G))) (0 + 1) True"
      unfolding nonneg_min_iff [OF wf nw] using av by blast
    then have "0 \<le> plain_minimax (put ?G ?r ?c (Some (player_symbol ?G))) 0 True"
      by (simp only: child_depth [OF wf av])
    then show ?thesis using False cp by simp
  qed
  have "0 \<le> plain_minimax ?X 0 (current_player (finish_turn g') = s)"
  proof (cases "outcome g' = InProgress")
    case True
    then have "current_player (finish_turn g') = opponent (current_player g)"
      unfolding g' using st by (intro standard_turn(2))
    moreover have "(opponent (current_player g) = s) = (current_player g \<noteq> s)"
      using opponent_other [of "current_player g" s] by (cases "current_player g = s") auto
    ultimately show ?thesis using key by simp
  next
    case False
    from fin [OF False, of "current_player (finish_turn g') = s" "current_player g \<noteq> s"] key
    show ?thesis by simp
  qed
  moreover have "standard (finish_turn g')" unfolding g' using st by (rule standard_turn(1))
  ultimately show ?case by (simp only: view)
qed

lemma plays_never_lost:
  assumes "plays (\<lambda>p. p = s) g0 g" "standard g0"
    "0 \<le> plain_minimax (as_npc s g0) 0 (current_player g0 = s)"
  shows "check_winner g \<noteq> Some (opponent s)"
proof
  assume lost: "check_winner g = Some (opponent s)"
  from plays_invariant [OF assms] have wf: "wf_board (board (as_npc s g))"
    and inv: "0 \<le> plain_minimax (as_npc s g) 0 (current_player g = s)"
    by (simp_all add: standard_def)
  have "plain_minimax (as_npc s g) 0 (current_player g = s) = 0 - 10"
    using lost by (subst plain_minimax_leaf [OF wf]) simp_all
  with inv show False by simp
qed

lemma standard_new_game: "standard new_game"
  by (simp add: standard_def wf_new_game) (simp add: new_game_def)

lemma count_empty_new_game: "count_empty new_game = 9"
  by (simp add: count_empty_def new_game_def numeral_3_eq_3)

lemma new_game_not_lost:
  "0 \<le> plain_minimax (as_npc s new_game) 0 (current_player new_game = s)"
proof (cases s)
  case PX
  have "0 \<le> plain_minimax (as_npc PX new_game) 0 True"
    by (rule no_loss_sound [OF no_loss_first]) (simp_all add: wf_new_game count_empty_new_game)
  then show ?thesis by (simp add: PX new_game_def)
next
  case PO
  have "0 \<le> plain_minimax (as_npc PO new_game) 0 False"
    by (rule no_loss_sound [OF no_loss_second]) (simp_all add: wf_new_game count_empty_new_game)
  then show ?thesis by (simp add: PO new_game_def)
qed

lemma plays_trans:
  assumes "plays H g0 g1" "plays H g1 g2"
  shows "plays H g0 g2"
  using assms(2,1)
proof (induction rule: plays.induct)
  case start
  then show ?case .
next
  case (turn g row col g')
  from turn.IH [OF turn.prems] turn.hyps(2-4) show ?case by (rule plays.turn)
qed

lemma plays_mono:
  assumes "plays H g0 g" "\<And>p. H' p \<Longrightarrow> H p"
  shows "plays H' g0 g"
  using assms(1)
proof (induction rule: plays.induct)
  case start
  show ?case by (rule plays.start)
next
  case (turn g row col g')
  from turn.IH turn.hyps(2,3) show ?case
    by (rule plays.turn) (use turn.hyps(4) assms(2) in blast)
qed

lemma count_empty_pos:
  assumes "wf_board (board g)" "(r, c) \<in> set (available_moves g)"
  shows "count_empty (put g r c (Some s)) < count_empty g"
  using assms by (intro count_empty_put) (simp_all add: available_moves_iff)

lemma hard_move_returns:
  assumes "wf_board (board g)" "\<not> is_full g"
  shows "\<exists>r c. hard_move g = Some (Some (r, c), g) \<and> (r, c) \<in> set (available_moves g)"
proof -
  from assms have ne: "available_moves g \<noteq> []" by (rule available_moves_nonempty)
  from hard_move_selects [OF assms(1) ne] obtain i where i: "i < length (available_moves g)"
    and loop: "hard_move_loop all_cells (- maxsize, None, g) =
             Some (plain_score g (available_moves g ! i), Some (available_moves g ! i), g)"
    by blast
  obtain r c where rc: "available_moves g ! i = (r, c)" by (cases "available_moves g ! i")
  have "hard_move g = Some (Some (r, c), g)" by (simp add: hard_move_def loop rc)
  moreover have "(r, c) \<in> set (available_moves g)" using i rc by (metis nth_mem)
  ultimately show ?thesis by blast
qed

lemma self_play_spec:
  assumes "standard g" "outcome g = InProgress" "count_empty g \<le> n"
  shows "\<exists>g'. self_play n g = Some (outcome g') \<and> plays (\<lambda>p. True) g g' \<and> outcome g' \<noteq> InProgress"
  using assms
proof (induction n arbitrary: g)
  case 0
  from "0.prems" have wf: "wf_board (board g)" and nf: "\<not> is_full g"
    by (simp_all add: standard_def in_progress_iff)
  from available_moves_nonempty [OF wf nf] obtain r c where "(r, c) \<in> set (available_moves g)"
    by (cases "available_moves g") auto
  from count_empty_pos [OF wf this, of PX] "0.prems"(3) show ?case by simp
next
  case (Suc n)
  let ?cp = "current_player g"
  let ?G = "as_npc ?cp g"
  from Suc.prems have wf: "wf_board (board g)" and nf: "\<not> is_full g"
    by (simp_all add: standard_def in_progress_iff)
  from hard_move_returns [of ?G] wf nf obtain r c
    where h: "hard_move ?G = Some (Some (r, c), ?G)" and av: "(r, c) \<in> set (available_moves g)"
    by auto
  let ?g1 = "put g r c (Some ?cp)"
  have mv: "make_move g (int r) (int c) = (Inr True, ?g1)" using av by (rule make_move_available)
  have step: "plays (\<lambda>p. True) g (finish_turn ?g1)"
    by (rule plays.turn [OF plays.start Suc.prems(2) mv]) (simp add: h)
  show ?case
  proof (cases "outcome ?g1 = InProgress")
    case True
    have ft: "finish_turn ?g1 = switch_player ?g1" using True by (simp add: finish_turn_def)
    have "standard (switch_player ?g1)"
      using standard_turn(1) [OF Suc.prems(1), of r c "Some ?cp"] by (simp add: ft)
    moreover have "outcome (switch_player ?g1) = InProgress" using True by simp
    moreover have "count_empty (switch_player ?g1) \<le> n"
    proof -
      have "count_empty (switch_player ?g1) = count_empty ?g1"
        by (simp add: count_empty_def switch_player_def)
      with count_empty_pos [OF wf av, of ?cp] Suc.prems(3) show ?thesis by simp
    qed
    ultimately obtain g' where g': "self_play n (switch_player ?g1) = Some (outcome g')"
      "plays (\<lambda>p. True) (switch_player ?g1) g'" "outcome g' \<noteq> InProgress"
      using Suc.IH by blast
    have "self_play (Suc n) g = Some (outcome g')"
      using True g'(1) by (simp add: h mv)
    moreover have "plays (\<lambda>p. True) g g'"
      using step g'(2) unfolding ft by (rule plays_trans)
    ultimately show ?thesis using g'(3) by blast
  next
    case False
    have ft: "finish_turn ?g1 = ?g1" using False by (simp add: finish_turn_def)
    have "self_play (Suc n) g = Some (outcome ?g1)"
      using False by (simp add: h mv)
    with step False show ?thesis unfolding ft by blast
  qed
qed

lemma never_loses_from_start:
  assumes "plays (\<lambda>p. p = s) new_game g"
  shows "check_winner g \<noteq> Some (opponent s)"
  using assms standard_new_game new_game_not_lost by (rule plays_never_lost)

lemma self_play_draw: "self_play 9 new_game = Some Draw"
proof -
  have "outcome new_game = InProgress" by code_simp
  from self_play_spec [OF standard_new_game this, of 9] obtain g'
    where sp: "self_play 9 new_game = Some (outcome g')"
      and pl: "plays (\<lambda>p. True) new_game g'" and fin: "outcome g' \<noteq> InProgress"
    by (auto simp: count_empty_new_game)
  have "plays (\<lambda>p. p = s) new_game g'" for s using pl by (rule plays_mono) simp
  from never_loses_from_start [OF this]
  have "check_winner g' \<noteq> Some (opponent PX)" "check_winner g' \<noteq> Some (opponent PO)" by blast+
  then have "check_winner g' = None"
  proof (cases "check_winner g'")
    case (Some t)
    then show ?thesis using \<open>check_winner g' \<noteq> Some (opponent PX)\<close>
        \<open>check_winner g' \<noteq> Some (opponent PO)\<close>
      by (cases t) (simp_all add: opponent_def)
  qed simp
  with fin have "outcome g' = Draw" by (simp add: outcome_def split: if_splits)
  with sp show ?thesis by simp
qed

lemma make_move_True:
  "make_move g row col = (Inr v, g') \<Longrightarrow> make_move g row col = (Inr True, g')"
  by (auto simp: make_move_def split: if_splits)

lemma run_moves_plays: "run_moves g ms = Some g' \<Longrightarrow> plays nobody g g'"
proof (induction ms arbitrary: g)
  case Nil
  then show ?case by (simp add: plays.start)
next
  case (Cons m ms)
  obtain row col where m: "m = (row, col)" by (cases m)
  from Cons.prems obtain v g1 where ip: "outcome g = InProgress"
    and mv: "make_move g row col = (Inr v, g1)" and rest: "run_moves (finish_turn g1) ms = Some g'"
    by (auto simp: m split: if_splits prod.splits sum.splits)
  have "plays nobody g (finish_turn g1)"
    by (rule plays.turn [OF plays.start ip make_move_True [OF mv]]) (simp add: nobody_def)
  then show ?case using Cons.IH [OF rest] by (rule plays_trans)
qed

text \<open>
  Claim C1 as stated starts from any board reachable by legal play. \<open>lost_pos\<close> is reached
  by five legal moves, it is the turn of O, and O has two threats to meet: the position is
  already lost. \<open>hard_move\<close> plays (0,1), X completes the left column and wins.
\<close>

theorem hard_move_never_loses_counterexample:
  "plays nobody new_game lost_pos \<and> current_player lost_pos = npc_symbol lost_pos
   \<and> outcome lost_pos = InProgress
   \<and> plays (follows PO) lost_pos lost_end \<and> check_winner lost_end = Some (opponent PO)"
proof -
  have "run_moves new_game [(0, 0), (1, 1), (2, 2), (0, 2), (2, 0)] = Some lost_pos"
    by code_simp
  then have reach: "plays nobody new_game lost_pos" by (rule run_moves_plays)
  have ip1: "outcome lost_pos = InProgress" by code_simp
  have mv1: "make_move lost_pos 0 1 = (Inr True, put lost_pos 0 1 (Some PO))" by code_simp
  have h1: "map_option fst (hard_move (as_npc (current_player lost_pos) lost_pos)) =
              Some (Some (nat 0, nat 1))" by code_simp
  have f1: "finish_turn (put lost_pos 0 1 (Some PO)) = lost_mid" by code_simp
  have ip2: "outcome lost_mid = InProgress" by code_simp
  have mv2: "make_move lost_mid 1 0 = (Inr True, put lost_mid 1 0 (Some PX))" by code_simp
  have cp2: "\<not> follows PO (current_player lost_mid)" by (simp add: follows_def lost_mid_def)
  have f2: "finish_turn (put lost_mid 1 0 (Some PX)) = lost_end" by code_simp
  have "plays (follows PO) lost_pos (finish_turn (put lost_pos 0 1 (Some PO)))"
    by (rule plays.turn [OF plays.start ip1 mv1]) (rule impI, rule h1)
  then have "plays (follows PO) lost_pos lost_mid" by (simp only: f1)
  then have "plays (follows PO) lost_pos (finish_turn (put lost_mid 1 0 (Some PX)))"
    using ip2 mv2 by (rule plays.turn) (simp only: cp2 simp_thms)
  then have "plays (follows PO) lost_pos lost_end" by (simp only: f2)
  moreover have "check_winner lost_end = Some (opponent PO)" by code_simp
  moreover have "current_player lost_pos = npc_symbol lost_pos" by code_simp
  ultimately show ?thesis using reach ip1 by blast
qed

lemma plays_standard:
  assumes "plays H g0 g" "standard g0"
  shows "standard g"
  using assms
proof (induction rule: plays.induct)
  case start
  then show ?case .
next
  case (turn g row col g')
  from make_move_success(1) [OF turn.hyps(3)]
  have g': "g' = put g (nat row) (nat col) (Some (current_player g))" .
  from turn.IH [OF turn.prems] show ?case unfolding g' by (rule standard_turn(1))
qed

lemma never_loses_from_reachable:
  assumes "plays nobody new_game g0" "not_lost s g0" "plays (follows s) g0 g"
  shows "check_winner g \<noteq> Some (opponent s)"
proof -
  from assms(1) standard_new_game have st: "standard g0" by (rule plays_standard)
  from assms(3) have "plays (\<lambda>p. p = s) g0 g" by (simp only: follows_def)
  from this st show ?thesis using assms(2) unfolding not_lost_def by (rule plays_never_lost)
qed

lemma not_lost_new_game: "not_lost s new_game"
  unfolding not_lost_def by (rule new_game_not_lost)

text \<open>
  Claim C1, for boards that are not already lost. From every board reachable by legal play
  that is not lost for a side, in every play in which that side takes the move of
  \<open>hard_move\<close> at each of its turns, whatever the other side plays, no position reached
  has the other symbol as winner. The empty board is not lost for either side, so this holds
  for every play from the initial state; and when both sides take the move of \<open>hard_move\<close>
  from the empty board, the game ends in a draw.
\<close>

theorem hard_move_never_loses:
  "(\<forall>s g0 g. plays nobody new_game g0 \<and> not_lost s g0 \<and> plays (follows s) g0 g \<longrightarrow>
       check_winner g \<noteq> Some (opponent s))
   \<and> (\<forall>s. not_lost s new_game)
   \<and> (\<forall>s g. plays (follows s) new_game g \<longrightarrow> check_winner g \<noteq> Some (opponent s))
   \<and> self_play 9 new_game = Some Draw"
proof -
  have "check_winner g \<noteq> Some (opponent s)" if "plays (follows s) new_game g" for s g
    using plays.start not_lost_new_game that by (rule never_loses_from_reachable)
  then show ?thesis
    using never_loses_from_reachable not_lost_new_game self_play_draw by blast
qed

theorem hard_move_never_loses_witness:
  "plays nobody new_game open_pos \<and> current_player open_pos = PO \<and> not_lost PO open_pos
   \<and> plays (follows PO) open_pos open_reply
   \<and> check_winner open_reply \<noteq> Some (opponent PO)
   \<and> plays (follows PO) new_game reply_pos \<and> check_winner reply_pos \<noteq> Some (opponent PO)"
proof -
  have "run_moves new_game [(0, 0), (0, 2), (1, 1)] = Some open_pos" by code_simp
  then have reach: "plays nobody new_game open_pos" by (rule run_moves_plays)
  have cp: "current_player open_pos = PO" by code_simp
  have wf: "wf_board (board (as_npc PO open_pos))" by code_simp
  have ce: "0 + int (count_empty (as_npc PO open_pos)) \<le> 9" by code_simp
  have nl: "no_loss 10 (as_npc PO open_pos) True" by code_simp
  have "0 \<le> plain_minimax (as_npc PO open_pos) 0 True"
    using nl wf _ ce by (rule no_loss_sound) simp
  then have safe: "not_lost PO open_pos" by (simp add: not_lost_def cp)
  have ip0: "outcome open_pos = InProgress" by code_simp
  have mv0: "make_move open_pos 2 2 = (Inr True, put open_pos 2 2 (Some PO))" by code_simp
  have h0: "map_option fst (hard_move (as_npc (current_player open_pos) open_pos)) =
              Some (Some (nat 2, nat 2))" by code_simp
  have f0: "finish_turn (put open_pos 2 2 (Some PO)) = open_reply" by code_simp
  have "plays (follows PO) open_pos (finish_turn (put open_pos 2 2 (Some PO)))"
    by (rule plays.turn [OF plays.start ip0 mv0]) (rule impI, rule h0)
  then have p0: "plays (follows PO) open_pos open_reply" by (simp only: f0)
  have ip1: "outcome new_game = InProgress" by code_simp
  have mv1: "make_move new_game 1 1 = (Inr True, put new_game 1 1 (Some PX))" by code_simp
  have cp1: "\<not> follows PO (current_player new_game)" by (simp add: follows_def new_game_def)
  have f1: "finish_turn (put new_game 1 1 (Some PX)) = centre_pos" by code_simp
  have ip2: "outcome centre_pos = InProgress" by code_simp
  have mv2: "make_move centre_pos 0 0 = (Inr True, put centre_pos 0 0 (Some PO))" by code_simp
  have h2: "map_option fst (hard_move (as_npc (current_player centre_pos) centre_pos)) =
              Some (Some (nat 0, nat 0))" by code_simp
  have f2: "finish_turn (put centre_pos 0 0 (Some PO)) = reply_pos" by code_simp
  have "plays (follows PO) new_game (finish_turn (put new_game 1 1 (Some PX)))"
    by (rule plays.turn [OF plays.start ip1 mv1]) (simp only: cp1 simp_thms)
  then have "plays (follows PO) new_game centre_pos" by (simp only: f1)
  then have "plays (follows PO) new_game (finish_turn (put centre_pos 0 0 (Some PO)))"
    using ip2 mv2 by (rule plays.turn) (rule impI, rule h2)
  then have p: "plays (follows PO) new_game reply_pos" by (simp only: f2)
  from hard_move_never_loses reach safe p0
  have "check_winner open_reply \<noteq> Some (opponent PO)" by blast
  moreover from hard_move_never_loses p
  have "check_winner reply_pos \<noteq> Some (opponent PO)" by blast
  ultimately show ?thesis using reach cp safe p0 p by blast
qed

end
